theory Spec2Isabelle
  imports
    Main
    "HOL-Library.Char_ord"
    "HOL-Library.List_Lexorder"
    "HOL-Library.Product_Lexorder"
begin

section \<open>The alignment pipeline of \<^verbatim>\<open>pipes/alignment.py\<close>\<close>

text \<open>
  The class \<^verbatim>\<open>AlignmentPipeline\<close> groups the rows of a table of texts by event and by
  (language, side, register), aligns every document of one group with every document of
  another, and writes one XML file per pair of groups.

  Conventions of the embedding.
  \<^item> A Python \<^verbatim>\<open>str\<close> is a \<^typ>\<open>string\<close>; a \<^typ>\<open>char\<close> stands for a code point below 256,
    and the order of \<^typ>\<open>string\<close> is the lexicographic order on code points, as Python's.
  \<^item> The object \<^verbatim>\<open>self\<close> and the files under the output directory are a record that every
    method takes and returns.
  \<^item> An exception is a value \<open>Inl e\<close> of a sum type; a loop stops at the first one.
  \<^item> The sentence aligner (Bertalign) and the XML parser (\<^verbatim>\<open>fromstring\<close>) are libraries:
    each is a parameter of the methods that call it.
\<close>

subsection \<open>Data\<close>

datatype error = IndexError | ParseError

text \<open>One row of \<^verbatim>\<open>texts_data\<close> after \<^verbatim>\<open>load_data\<close> has renamed the columns.\<close>

record text_row =
  id_col :: string
  event_id :: string
  lang :: string
  source_target :: string
  spoken_written :: string
  processed_text :: string

text \<open>The key of the inner \<^verbatim>\<open>groupby\<close>: (lang, source_target, spoken_written).\<close>

type_synonym group_key = "string \<times> string \<times> string"

text \<open>An alignment result: the dictionary with the keys xtargets, type and status.\<close>

record link =
  xtargets :: string
  type :: string
  status :: string

text \<open>\<^verbatim>\<open>self\<close>, together with the files written so far (path to content).\<close>

record pipeline =
  texts_data :: "text_row list"
  xml_output_dir :: string
  aligned_texts :: "(string \<times> string \<times> string) list"
  failed_pairs :: "(string \<times> string \<times> string) list"
  files :: "string \<rightharpoonup> string"

type_synonym aligner = "string \<Rightarrow> string \<Rightarrow> string \<Rightarrow> string \<Rightarrow> (nat list \<times> nat list) list"

subsection \<open>Strings\<close>

text \<open>\<^verbatim>\<open>str(n)\<close> and \<^verbatim>\<open>f"{n}"\<close> for a non-negative integer.\<close>

definition digit_char :: "nat \<Rightarrow> char" where
  "digit_char d = char_of (48 + d)"

fun str_nat :: "nat \<Rightarrow> string" where
  "str_nat n = (if n < 10 then [digit_char n] else str_nat (n div 10) @ [digit_char (n mod 10)])"

declare str_nat.simps [simp del]

text \<open>\<^verbatim>\<open>int(s)\<close> for a string of decimal digits.\<close>

definition digit_value :: "char \<Rightarrow> nat" where
  "digit_value c = of_char c - 48"

definition decimal_value :: "string \<Rightarrow> nat" where
  "decimal_value s = foldl (\<lambda>acc c. 10 * acc + digit_value c) 0 s"

text \<open>\<^verbatim>\<open>sep.join(xs)\<close>.\<close>

fun join :: "string \<Rightarrow> string list \<Rightarrow> string" where
  "join sep [] = []"
| "join sep [x] = x"
| "join sep (x # y # ys) = x @ sep @ join sep (y # ys)"

text \<open>\<^verbatim>\<open>s.startswith(p)\<close> and \<^verbatim>\<open>p in s\<close>.\<close>

fun startswith :: "string \<Rightarrow> string \<Rightarrow> bool" where
  "startswith s [] = True"
| "startswith [] (p # ps) = False"
| "startswith (c # cs) (p # ps) = (c = p \<and> startswith cs ps)"

fun contains :: "string \<Rightarrow> string \<Rightarrow> bool" where
  "contains [] p = (p = [])"
| "contains (c # cs) p = (startswith (c # cs) p \<or> contains cs p)"

text \<open>\<^verbatim>\<open>s.replace(old, new)\<close> for a non-empty \<^verbatim>\<open>old\<close>: the occurrences are found from the
  left and do not overlap.\<close>

fun replace :: "string \<Rightarrow> string \<Rightarrow> string \<Rightarrow> string" where
  "replace old new [] = []"
| "replace old new (c # cs) =
     (if startswith (c # cs) old
      then new @ replace old new (drop (length old - 1) cs)
      else c # replace old new cs)"

text \<open>\<^verbatim>\<open>s.lower()\<close> on code points below 256: the letters A to Z and the upper-case letters
  of Latin-1 (192 to 222 without the multiplication sign 215) move up by 32.\<close>

definition lower_char :: "char \<Rightarrow> char" where
  "lower_char c =
     (let n = (of_char c :: nat)
      in if (65 \<le> n \<and> n \<le> 90) \<or> (192 \<le> n \<and> n \<le> 222 \<and> n \<noteq> 215) then char_of (n + 32) else c)"

definition lower :: "string \<Rightarrow> string" where
  "lower s = map lower_char s"

text \<open>\<^verbatim>\<open>str.isspace\<close> on one code point below 256; it is also the class \<^verbatim>\<open>\s\<close> of \<^verbatim>\<open>re\<close>
  on a \<^verbatim>\<open>str\<close> pattern.\<close>

definition isspace :: "char \<Rightarrow> bool" where
  "isspace c =
     (let n = (of_char c :: nat)
      in (9 \<le> n \<and> n \<le> 13) \<or> (28 \<le> n \<and> n \<le> 32) \<or> n = 133 \<or> n = 160)"

text \<open>\<^verbatim>\<open>s.strip()\<close>.\<close>

definition strip :: "string \<Rightarrow> string" where
  "strip s = rev (dropWhile isspace (rev (dropWhile isspace s)))"

text \<open>\<^verbatim>\<open>os.path.join(a, b)\<close> of \<^verbatim>\<open>posixpath\<close>.\<close>

definition os_path_join :: "string \<Rightarrow> string \<Rightarrow> string" where
  "os_path_join a b =
     (if startswith b ''/'' then b
      else if a = [] \<or> last a = CHR ''/'' then a @ b
      else a @ ''/'' @ b)"

subsection \<open>Loops and grouping\<close>

text \<open>A \<^verbatim>\<open>for\<close> loop whose body may raise: the first exception ends the loop.\<close>

fun for_each :: "('a \<Rightarrow> 's \<Rightarrow> error + 's) \<Rightarrow> 'a list \<Rightarrow> 's \<Rightarrow> error + 's" where
  "for_each body [] s = Inr s"
| "for_each body (x # xs) s =
     (case body x s of Inl e \<Rightarrow> Inl e | Inr s' \<Rightarrow> for_each body xs s')"

text \<open>\<^verbatim>\<open>DataFrame.groupby(cols)\<close>, iterated: one group per distinct key, the keys in
  ascending order, the rows of a group in the order of the table.\<close>

definition groupby :: "('r \<Rightarrow> 'k::linorder) \<Rightarrow> 'r list \<Rightarrow> ('k \<times> 'r list) list" where
  "groupby key rows =
     map (\<lambda>k. (k, filter (\<lambda>r. key r = k) rows)) (sort (remdups (map key rows)))"

definition group_key_of :: "text_row \<Rightarrow> group_key" where
  "group_key_of r = (lang r, source_target r, spoken_written r)"

text \<open>\<^verbatim>\<open>combinations\<close> of one event, and the pairs of groups on which the body under
  \<^verbatim>\<open>if (lang1, ...) < (lang2, ...)\<close> runs, in the order of the two loops.\<close>

definition combinations :: "text_row list \<Rightarrow> (group_key \<times> text_row list) list" where
  "combinations grp = groupby group_key_of grp"

definition group_pairs ::
  "text_row list \<Rightarrow> ((group_key \<times> text_row list) \<times> (group_key \<times> text_row list)) list" where
  "group_pairs grp =
     concat (map (\<lambda>c1. concat (map (\<lambda>c2. if fst c1 < fst c2 then [(c1, c2)] else [])
                                     (combinations grp)))
                 (combinations grp))"

definition pair_name :: "group_key \<Rightarrow> group_key \<Rightarrow> string" where
  "pair_name k1 k2 =
     (case (k1, k2) of ((lang1, src_target1, spoken_written1), (lang2, src_target2, spoken_written2)) \<Rightarrow>
        ''EPTIC.'' @ lower lang1 @ ''_'' @ lower spoken_written1 @ ''_'' @ lower src_target1 @ ''.''
          @ lower lang2 @ ''_'' @ lower spoken_written2 @ ''_'' @ lower src_target2)"

subsection \<open>The XML library: element trees and \<^verbatim>\<open>tostring\<close>\<close>

text \<open>
  An \<^verbatim>\<open>Element\<close> of \<^verbatim>\<open>xml.etree.ElementTree\<close>: its tag, its attribute dictionary in
  insertion order, its text, its children and its tail.
\<close>

datatype element =
  Element (tag: string) (attrib: "(string \<times> string) list") (el_text: "string option")
    (children: "element list") (el_tail: "string option")

definition escape_cdata :: "string \<Rightarrow> string" where
  "escape_cdata t = replace ''>'' ''&gt;'' (replace ''<'' ''&lt;'' (replace ''&'' ''&amp;'' t))"

definition escape_attrib :: "string \<Rightarrow> string" where
  "escape_attrib t =
     replace [CHR 0x09] ''&#09;'' (replace [CHR 0x0A] ''&#10;'' (replace [CHR 0x0D] ''&#13;''
       (replace [CHR 0x22] ''&quot;'' (replace ''>'' ''&gt;'' (replace ''<'' ''&lt;''
         (replace ''&'' ''&amp;'' t))))))"

text \<open>\<^verbatim>\<open>tostring(root, encoding='unicode')\<close> for tags and attribute names without a namespace
  (Python 3.8 and later: the attributes are written in the order of the dictionary, and
  no XML declaration is written for this encoding). An empty text or tail is not written.\<close>

fun tostring :: "element \<Rightarrow> string" where
  "tostring (Element tg atts txt chs tal) =
     ''<'' @ tg
     @ concat (map (\<lambda>(k, v). '' '' @ k @ ''='' @ [CHR 0x22] @ escape_attrib v @ [CHR 0x22]) atts)
     @ (if (txt \<noteq> None \<and> txt \<noteq> Some []) \<or> chs \<noteq> []
        then ''>'' @ (case txt of None \<Rightarrow> [] | Some t \<Rightarrow> escape_cdata t)
             @ concat (map tostring chs) @ ''</'' @ tg @ ''>''
        else '' />'')
     @ (case tal of None \<Rightarrow> [] | Some t \<Rightarrow> escape_cdata t)"

subsection \<open>\<^verbatim>\<open>_align_sents\<close>\<close>

text \<open>\<^verbatim>\<open>self.texts_data.loc[self.texts_data['id'] == i, 'processed_text'].values[0]\<close>: the
  text of the first row with that id; \<^verbatim>\<open>IndexError\<close> when there is none.\<close>

definition processed_text_of :: "text_row list \<Rightarrow> string \<Rightarrow> error + string" where
  "processed_text_of td i =
     (case filter (\<lambda>r. id_col r = i) td of [] \<Rightarrow> Inl IndexError | r # _ \<Rightarrow> Inr (processed_text r))"

text \<open>One pair (left_side, right_side) of the aligner's result as a link.\<close>

definition make_link :: "string \<Rightarrow> string \<Rightarrow> nat list \<times> nat list \<Rightarrow> link" where
  "make_link src_id tgt_id alignment =
     (case alignment of (left_side, right_side) \<Rightarrow>
        let src_targets = join '' '' (map (\<lambda>idx. src_id @ '':'' @ str_nat idx) left_side);
            tgt_targets = join '' '' (map (\<lambda>idx. tgt_id @ '':'' @ str_nat idx) right_side)
        in \<lparr>xtargets = src_targets @ '';'' @ tgt_targets,
            type = str_nat (length left_side) @ ''-'' @ str_nat (length right_side),
            status = ''auto''\<rparr>)"

text \<open>The result is \<open>Inr None\<close> for Python's \<^verbatim>\<open>None\<close>.\<close>

definition align_sents ::
  "aligner \<Rightarrow> text_row list \<Rightarrow> string \<Rightarrow> string \<Rightarrow> string \<Rightarrow> string \<Rightarrow> error + link list option" where
  "align_sents aligner td src_id tgt_id src_lang tgt_lang =
     (case processed_text_of td src_id of
        Inl e \<Rightarrow> Inl e
      | Inr src_text \<Rightarrow>
          (case processed_text_of td tgt_id of
             Inl e \<Rightarrow> Inl e
           | Inr tgt_text \<Rightarrow>
               if src_text = [] \<or> tgt_text = [] then Inr None
               else Inr (Some (map (make_link src_id tgt_id)
                                   (aligner src_text tgt_text src_lang tgt_lang)))))"

subsection \<open>\<^verbatim>\<open>_rearrange_link_attributes\<close>, \<^verbatim>\<open>_prettify_and_refine_xml\<close>, \<^verbatim>\<open>_generate_xml\<close>\<close>

text \<open>The dictionary comprehension over the list of the three names; every other
  attribute is lost in \<^verbatim>\<open>link.attrib.clear()\<close>.\<close>

definition ordered_attributes :: "(string \<times> string) list \<Rightarrow> (string \<times> string) list" where
  "ordered_attributes attributes =
     concat (map (\<lambda>k. case map_of attributes k of None \<Rightarrow> [] | Some v \<Rightarrow> [(k, v)])
                 [''type'', ''xtargets'', ''status''])"

text \<open>\<^verbatim>\<open>root.findall('.//link')\<close> is every descendant of the root with the tag \<^verbatim>\<open>link\<close>,
  never the root itself.\<close>

fun rearrange_element :: "element \<Rightarrow> element" where
  "rearrange_element (Element tg atts txt chs tal) =
     Element tg (if tg = ''link'' then ordered_attributes atts else atts) txt
       (map rearrange_element chs) tal"

definition rearrange_root :: "element \<Rightarrow> element" where
  "rearrange_root root =
     Element (tag root) (attrib root) (el_text root) (map rearrange_element (children root))
       (el_tail root)"

type_synonym parser = "string \<Rightarrow> error + element"

definition rearrange_link_attributes :: "parser \<Rightarrow> string \<Rightarrow> error + string" where
  "rearrange_link_attributes fromstring xml_string =
     (case fromstring xml_string of
        Inl e \<Rightarrow> Inl e
      | Inr root \<Rightarrow> Inr (replace '' />'' ''/>'' (tostring (rearrange_root root))))"

text \<open>\<^verbatim>\<open>re.sub\<close> with the pattern \<^verbatim>\<open>>\s*<\<close> and the replacement \<^verbatim>\<open>>\n<\<close>: a match
  starts at a \<^verbatim>\<open>>\<close> that is followed by white space and then \<^verbatim>\<open><\<close>, and the search goes on
  behind that \<^verbatim>\<open><\<close>.\<close>

function re_sub_tags :: "string \<Rightarrow> string" where
  "re_sub_tags [] = []"
| "re_sub_tags (c # cs) =
     (if c = CHR ''>'' \<and> startswith (dropWhile isspace cs) ''<''
      then ''>\<newline><'' @ re_sub_tags (tl (dropWhile isspace cs))
      else c # re_sub_tags cs)"
  by pat_completeness auto
termination
  by (relation "measure length")
    (auto simp: less_Suc_eq_le intro!: order_trans [OF diff_le_self length_dropWhile_le])

definition xml_declaration :: string where
  "xml_declaration = ''<?xml version='1.0' encoding='utf-8'?>''"

definition prettify_and_refine_xml :: "parser \<Rightarrow> string \<Rightarrow> error + string" where
  "prettify_and_refine_xml fromstring xml_string =
     (case rearrange_link_attributes fromstring xml_string of
        Inl e \<Rightarrow> Inl e
      | Inr s \<Rightarrow>
          Inr (xml_declaration @ ''\<newline>'' @ replace [CHR 0x22] [CHR 0x27] (strip (re_sub_tags s))))"

text \<open>The test of the list comprehension at the head of \<^verbatim>\<open>_generate_xml\<close>.\<close>

definition retained :: "link \<Rightarrow> bool" where
  "retained result \<longleftrightarrow> contains (xtargets result) ''643:0'' \<or> contains (xtargets result) ''641:''"

definition link_element :: "link \<Rightarrow> element" where
  "link_element result =
     Element ''link''
       [(''type'', type result), (''xtargets'', xtargets result), (''status'', status result)]
       None [] None"

definition link_group :: "link list \<Rightarrow> element" where
  "link_group alignment_results =
     Element ''linkGrp''
       [(''toDoc'', ''placeholder_toDoc.xml''), (''fromDoc'', ''placeholder_fromDoc.xml'')]
       None (map link_element alignment_results) None"

definition output_path :: "pipeline \<Rightarrow> string \<Rightarrow> string" where
  "output_path st pn = os_path_join (xml_output_dir st) (pn @ ''.xml'')"

text \<open>The file is opened with mode \<^verbatim>\<open>'w'\<close>: what it held before is replaced.\<close>

definition generate_xml :: "parser \<Rightarrow> string \<Rightarrow> link list \<Rightarrow> pipeline \<Rightarrow> error + pipeline" where
  "generate_xml fromstring pn alignment_results st =
     (case prettify_and_refine_xml fromstring
             (tostring (link_group (filter retained alignment_results))) of
        Inl e \<Rightarrow> Inl e
      | Inr xml_content \<Rightarrow> Inr (st\<lparr>files := (files st)(output_path st pn \<mapsto> xml_content)\<rparr>))"

subsection \<open>\<^verbatim>\<open>align_texts\<close>, \<^verbatim>\<open>save_alignment_file\<close>, \<^verbatim>\<open>run\<close>\<close>

text \<open>The body of the two loops over the rows: one call of \<^verbatim>\<open>_align_sents\<close>, then one
  record. \<^verbatim>\<open>if alignment_result:\<close> is false for \<^verbatim>\<open>None\<close> and for the empty list.\<close>

definition align_rows ::
  "aligner \<Rightarrow> string \<Rightarrow> string \<Rightarrow> string \<Rightarrow> text_row \<Rightarrow> text_row \<Rightarrow> link list \<times> pipeline
     \<Rightarrow> error + link list \<times> pipeline" where
  "align_rows aligner pn lang1 lang2 row1 row2 acc =
     (case acc of (alignment_results, st) \<Rightarrow>
        (case align_sents aligner (texts_data st) (id_col row1) (id_col row2) lang1 lang2 of
           Inl e \<Rightarrow> Inl e
         | Inr (Some (l # ls)) \<Rightarrow>
             Inr (alignment_results @ l # ls,
                  st\<lparr>aligned_texts := aligned_texts st @ [(id_col row1, id_col row2, pn)]\<rparr>)
         | Inr _ \<Rightarrow>
             Inr (alignment_results,
                  st\<lparr>failed_pairs := failed_pairs st @ [(id_col row1, id_col row2, pn)]\<rparr>)))"

definition align_groups ::
  "aligner \<Rightarrow> string \<Rightarrow> string \<Rightarrow> string \<Rightarrow> text_row list \<Rightarrow> text_row list \<Rightarrow> link list \<times> pipeline
     \<Rightarrow> error + link list \<times> pipeline" where
  "align_groups aligner pn lang1 lang2 group1 group2 =
     for_each (\<lambda>row1. for_each (\<lambda>row2. align_rows aligner pn lang1 lang2 row1 row2) group2) group1"

text \<open>The body under the comparison of the two keys.\<close>

definition align_group_pair ::
  "parser \<Rightarrow> aligner \<Rightarrow> (group_key \<times> text_row list) \<times> (group_key \<times> text_row list) \<Rightarrow> pipeline
     \<Rightarrow> error + pipeline" where
  "align_group_pair fromstring aligner cc st =
     (case cc of ((k1, group1), (k2, group2)) \<Rightarrow>
        (case align_groups aligner (pair_name k1 k2) (fst k1) (fst k2) group1 group2 ([], st) of
           Inl e \<Rightarrow> Inl e
         | Inr (alignment_results, st') \<Rightarrow>
             if alignment_results \<noteq> [] then generate_xml fromstring (pair_name k1 k2) alignment_results st'
             else Inr st'))"

definition align_event :: "parser \<Rightarrow> aligner \<Rightarrow> text_row list \<Rightarrow> pipeline \<Rightarrow> error + pipeline" where
  "align_event fromstring aligner grp =
     for_each (\<lambda>c1. for_each (\<lambda>c2 st. if fst c1 < fst c2
                                       then align_group_pair fromstring aligner (c1, c2) st
                                       else Inr st)
                              (combinations grp))
              (combinations grp)"

definition align_texts :: "parser \<Rightarrow> aligner \<Rightarrow> pipeline \<Rightarrow> error + pipeline" where
  "align_texts fromstring aligner st =
     for_each (\<lambda>eg. align_event fromstring aligner (snd eg)) (groupby event_id (texts_data st)) st"

text \<open>The rows of the table that \<^verbatim>\<open>save_alignment_file\<close> writes to the spreadsheet.\<close>

definition save_alignment_file :: "pipeline \<Rightarrow> (string \<times> string \<times> string) list" where
  "save_alignment_file st =
     concat (map (\<lambda>(src_id, tgt_id, pn).
                    case files st (output_path st pn) of
                      None \<Rightarrow> []
                    | Some content \<Rightarrow> [(src_id, tgt_id, content)])
                 (aligned_texts st))"

definition run ::
  "parser \<Rightarrow> aligner \<Rightarrow> pipeline \<Rightarrow> error + pipeline \<times> (string \<times> string \<times> string) list" where
  "run fromstring aligner st =
     (case align_texts fromstring aligner st of
        Inl e \<Rightarrow> Inl e
      | Inr st' \<Rightarrow> Inr (st', save_alignment_file st'))"

subsection \<open>A model of \<^verbatim>\<open>fromstring\<close>\<close>

text \<open>
  The methods take the parser as a parameter. \<open>et_fromstring\<close> is a model of it for the
  examples: it reads the documents that \<open>tostring\<close> writes for trees without text, which
  are elements with attributes in double or single quotes, the five named references and
  decimal character references, and it returns \<^verbatim>\<open>ParseError\<close> on every other string
  (the library also reads text, comments and more). As the library does, it refuses a
  control character that XML does not allow, an attribute given twice and an end tag with
  another name, and it turns white space inside an attribute value into a space. The
  recursion over nested elements takes fuel; \<open>et_fromstring\<close> gives more than the length of
  the string.
\<close>

definition xml_char :: "char \<Rightarrow> bool" where
  "xml_char c = (let n = (of_char c :: nat) in n = 9 \<or> n = 10 \<or> n = 13 \<or> 32 \<le> n)"

definition xml_space :: "char \<Rightarrow> bool" where
  "xml_space c = (let n = (of_char c :: nat) in n = 9 \<or> n = 10 \<or> n = 13 \<or> n = 32)"

definition name_start_char :: "char \<Rightarrow> bool" where
  "name_start_char c =
     (let n = (of_char c :: nat)
      in (65 \<le> n \<and> n \<le> 90) \<or> (97 \<le> n \<and> n \<le> 122) \<or> n = 95 \<or> n = 58)"

definition name_char :: "char \<Rightarrow> bool" where
  "name_char c =
     (let n = (of_char c :: nat)
      in name_start_char c \<or> (48 \<le> n \<and> n \<le> 57) \<or> n = 45 \<or> n = 46)"

definition is_digit :: "char \<Rightarrow> bool" where
  "is_digit c = (let n = (of_char c :: nat) in 48 \<le> n \<and> n \<le> 57)"

definition parse_reference :: "string \<Rightarrow> (char \<times> string) option" where
  "parse_reference s =
     (if startswith s ''amp;'' then Some (CHR ''&'', drop 4 s)
      else if startswith s ''lt;'' then Some (CHR ''<'', drop 3 s)
      else if startswith s ''gt;'' then Some (CHR ''>'', drop 3 s)
      else if startswith s ''quot;'' then Some (CHR 0x22, drop 5 s)
      else if startswith s ''apos;'' then Some (CHR 0x27, drop 5 s)
      else if startswith s ''#'' then
        (let ds = takeWhile is_digit (tl s); rest = dropWhile is_digit (tl s)
         in if ds \<noteq> [] \<and> startswith rest '';'' \<and> decimal_value ds < 256
               \<and> xml_char (char_of (decimal_value ds))
            then Some (char_of (decimal_value ds), tl rest) else None)
      else None)"

lemma parse_reference_length:
  "parse_reference s = Some (c, rest) \<Longrightarrow> length rest < length s"
  unfolding parse_reference_def
  by (cases s) (auto simp: Let_def length_dropWhile_le less_Suc_eq_le
       intro!: order_trans [OF diff_le_self length_dropWhile_le] split: if_splits)

function parse_att_value :: "char \<Rightarrow> string \<Rightarrow> (string \<times> string) option" where
  "parse_att_value q [] = None"
| "parse_att_value q (c # cs) =
     (if c = q then Some ([], cs)
      else if c = CHR ''<'' \<or> \<not> xml_char c then None
      else if c = CHR ''&'' then
        (case parse_reference cs of
           None \<Rightarrow> None
         | Some (ch, rest) \<Rightarrow>
             (case parse_att_value q rest of None \<Rightarrow> None | Some (v, r) \<Rightarrow> Some (ch # v, r)))
      else
        (case parse_att_value q cs of
           None \<Rightarrow> None
         | Some (v, r) \<Rightarrow> Some ((if xml_space c then CHR '' '' else c) # v, r)))"
  by pat_completeness auto
termination
  by (relation "measure (\<lambda>(q, s). length s)") (auto dest: parse_reference_length)

fun parse_attributes :: "nat \<Rightarrow> string \<Rightarrow> ((string \<times> string) list \<times> string) option" where
  "parse_attributes 0 s = None"
| "parse_attributes (Suc n) s =
     (let s1 = dropWhile xml_space s
      in if s1 = [] \<or> \<not> name_start_char (hd s1) then Some ([], s1)
         else if s1 = s then None
         else
           (let k = takeWhile name_char s1; s2 = dropWhile xml_space (dropWhile name_char s1)
            in if \<not> startswith s2 ''='' then None
               else
                 (case dropWhile xml_space (tl s2) of
                    [] \<Rightarrow> None
                  | q # s3 \<Rightarrow>
                      if q \<noteq> CHR 0x22 \<and> q \<noteq> CHR 0x27 then None
                      else
                        (case parse_att_value q s3 of
                           None \<Rightarrow> None
                         | Some (v, s4) \<Rightarrow>
                             (case parse_attributes n s4 of
                                None \<Rightarrow> None
                              | Some (atts, s5) \<Rightarrow> Some ((k, v) # atts, s5))))))"

fun parse_element :: "nat \<Rightarrow> string \<Rightarrow> (element \<times> string) option"
  and parse_elements :: "nat \<Rightarrow> string \<Rightarrow> (element list \<times> string) option" where
  "parse_element 0 s = None"
| "parse_element (Suc n) s =
     (if \<not> startswith s ''<'' \<or> tl s = [] \<or> \<not> name_start_char (hd (tl s)) then None
      else
        (let tg = takeWhile name_char (tl s)
         in case parse_attributes (Suc (length s)) (dropWhile name_char (tl s)) of
              None \<Rightarrow> None
            | Some (atts, s1) \<Rightarrow>
                if \<not> distinct (map fst atts) then None
                else if startswith s1 ''/>'' then Some (Element tg atts None [] None, drop 2 s1)
                else if \<not> startswith s1 ''>'' then None
                else
                  (case parse_elements n (tl s1) of
                     None \<Rightarrow> None
                   | Some (chs, s2) \<Rightarrow>
                       if startswith s2 (''</'' @ tg)
                          \<and> startswith (dropWhile xml_space (drop (length tg + 2) s2)) ''>''
                       then Some (Element tg atts None chs None,
                                  tl (dropWhile xml_space (drop (length tg + 2) s2)))
                       else None)))"
| "parse_elements 0 s = None"
| "parse_elements (Suc n) s =
     (if startswith s ''</'' then Some ([], s)
      else
        (case parse_element n s of
           None \<Rightarrow> None
         | Some (e, s1) \<Rightarrow>
             (case parse_elements n s1 of
                None \<Rightarrow> None
              | Some (es, s2) \<Rightarrow> Some (e # es, s2))))"

definition et_fromstring :: parser where
  "et_fromstring s =
     (case parse_element (Suc (length s)) s of
        None \<Rightarrow> Inl ParseError
      | Some (e, rest) \<Rightarrow> if dropWhile xml_space rest = [] then Inr e else Inl ParseError)"

subsection \<open>Notions used in the statements\<close>

text \<open>The pairs of keys below the diagonal of a list of keys, in the order of two loops.\<close>

definition ordered_pairs :: "'k::linorder list \<Rightarrow> ('k \<times> 'k) list" where
  "ordered_pairs ks =
     concat (map (\<lambda>k1. concat (map (\<lambda>k2. if k1 < k2 then [(k1, k2)] else []) ks)) ks)"

text \<open>The pairs of rows of two groups in the order of the two loops over the rows; whether
  the call of \<^verbatim>\<open>_align_sents\<close> for a pair of rows gives a non-empty list, the links it
  gives, and the triple recorded for the pair.\<close>

definition attempts :: "text_row list \<Rightarrow> text_row list \<Rightarrow> (text_row \<times> text_row) list" where
  "attempts group1 group2 = concat (map (\<lambda>row1. map (Pair row1) group2) group1)"

definition succeeds :: "aligner \<Rightarrow> text_row list \<Rightarrow> string \<Rightarrow> string \<Rightarrow> text_row \<times> text_row \<Rightarrow> bool" where
  "succeeds aligner td lang1 lang2 p =
     (case align_sents aligner td (id_col (fst p)) (id_col (snd p)) lang1 lang2 of
        Inr (Some (l # ls)) \<Rightarrow> True
      | _ \<Rightarrow> False)"

definition links_of :: "aligner \<Rightarrow> text_row list \<Rightarrow> string \<Rightarrow> string \<Rightarrow> text_row \<times> text_row \<Rightarrow> link list" where
  "links_of aligner td lang1 lang2 p =
     (case align_sents aligner td (id_col (fst p)) (id_col (snd p)) lang1 lang2 of
        Inr (Some ls) \<Rightarrow> ls
      | _ \<Rightarrow> [])"

definition record_of :: "string \<Rightarrow> text_row \<times> text_row \<Rightarrow> string \<times> string \<times> string" where
  "record_of pn p = (id_col (fst p), id_col (snd p), pn)"

text \<open>The words of the specification for \<^verbatim>\<open>xtargets\<close>: the entries of one side separated
  by spaces, a semicolon between the two sides.\<close>

fun spec_side :: "string \<Rightarrow> nat list \<Rightarrow> string" where
  "spec_side doc_id [] = []"
| "spec_side doc_id (idx # idxs) =
     doc_id @ '':'' @ str_nat idx @ concat (map (\<lambda>i. '' '' @ doc_id @ '':'' @ str_nat i) idxs)"

definition spec_xtargets :: "string \<Rightarrow> string \<Rightarrow> nat list \<Rightarrow> nat list \<Rightarrow> string" where
  "spec_xtargets src_id tgt_id source_indices target_indices =
     spec_side src_id source_indices @ '';'' @ spec_side tgt_id target_indices"

definition accumulated ::
  "aligner \<Rightarrow> text_row list \<Rightarrow> string \<Rightarrow> string \<Rightarrow> text_row list \<Rightarrow> text_row list \<Rightarrow> link list" where
  "accumulated aligner td lang1 lang2 group1 group2 =
     concat (map (links_of aligner td lang1 lang2) (attempts group1 group2))"

text \<open>The claim's reading of the filter: the link has sentence 0 of the document 643 or any
  sentence of the document 641 on one of its sides.\<close>

definition spec_retain :: "string \<Rightarrow> string \<Rightarrow> nat list \<times> nat list \<Rightarrow> bool" where
  "spec_retain src_id tgt_id alignment =
     (case alignment of (left_side, right_side) \<Rightarrow>
        (src_id = ''643'' \<and> 0 \<in> set left_side) \<or> (tgt_id = ''643'' \<and> 0 \<in> set right_side)
        \<or> (src_id = ''641'' \<and> left_side \<noteq> []) \<or> (tgt_id = ''641'' \<and> right_side \<noteq> []))"

text \<open>The text of the file for a list of links, and what a parser has to return for the
  text of a link group: the tree of the group, the attributes of every link in any order.\<close>

definition canonical_link :: "link \<Rightarrow> string" where
  "canonical_link l =
     ''<link type='' @ [CHR 0x27] @ escape_attrib (type l) @ [CHR 0x27]
     @ '' xtargets='' @ [CHR 0x27] @ escape_attrib (xtargets l) @ [CHR 0x27]
     @ '' status='' @ [CHR 0x27] @ escape_attrib (status l) @ [CHR 0x27] @ ''/>''"

definition canonical_xml :: "link list \<Rightarrow> string" where
  "canonical_xml ls =
     xml_declaration @ ''\<newline>''
     @ ''<linkGrp toDoc='placeholder_toDoc.xml' fromDoc='placeholder_fromDoc.xml'' @ [CHR 0x27]
     @ (if ls = [] then ''/>''
        else ''>'' @ concat (map (\<lambda>l. ''\<newline>'' @ canonical_link l) ls) @ ''\<newline></linkGrp>'')"

definition reads_links :: "parser \<Rightarrow> string \<Rightarrow> link list \<Rightarrow> bool" where
  "reads_links fromstring xml_string ls \<longleftrightarrow>
     (\<exists>kids. fromstring xml_string
               = Inr (Element ''linkGrp''
                        [(''toDoc'', ''placeholder_toDoc.xml''), (''fromDoc'', ''placeholder_fromDoc.xml'')]
                        None kids None)
           \<and> list_all2 (\<lambda>kid l. \<exists>atts. kid = Element ''link'' atts None [] None
                                  \<and> distinct (map fst atts)
                                  \<and> set atts = {(''type'', type l), (''xtargets'', xtargets l),
                                                 (''status'', status l)})
                 kids ls)"

text \<open>What \<open>tostring\<close> writes between the angle brackets of a link and of the group.\<close>

definition link_body :: "link \<Rightarrow> string" where
  "link_body l =
     ''link type='' @ [CHR 0x22] @ escape_attrib (type l) @ [CHR 0x22]
     @ '' xtargets='' @ [CHR 0x22] @ escape_attrib (xtargets l) @ [CHR 0x22]
     @ '' status='' @ [CHR 0x22] @ escape_attrib (status l) @ [CHR 0x22]"

definition group_body :: string where
  "group_body = ''linkGrp toDoc='' @ [CHR 0x22] @ ''placeholder_toDoc.xml'' @ [CHR 0x22]
     @ '' fromDoc='' @ [CHR 0x22] @ ''placeholder_fromDoc.xml'' @ [CHR 0x22]"

text \<open>Between a \<^verbatim>\<open>>\<close> and a following \<^verbatim>\<open><\<close> with nothing but white space in between, the
  white space is one newline.\<close>

fun tags_separated :: "string \<Rightarrow> bool" where
  "tags_separated [] = True"
| "tags_separated (c # cs) =
     ((c = CHR ''>'' \<and> startswith (dropWhile isspace cs) ''<'' \<longrightarrow> takeWhile isspace cs = ''\<newline>'')
      \<and> tags_separated cs)"

subsection \<open>Example data\<close>

definition doc :: "string \<Rightarrow> string \<Rightarrow> string \<Rightarrow> string \<Rightarrow> string \<Rightarrow> string \<Rightarrow> text_row" where
  "doc i ev l st sw txt =
     \<lparr>id_col = i, event_id = ev, lang = l, source_target = st, spoken_written = sw,
      processed_text = txt\<rparr>"

text \<open>The state after \<^verbatim>\<open>__init__\<close> and \<^verbatim>\<open>load_data\<close>: the table, no record, no file.\<close>

definition init_pipeline :: "text_row list \<Rightarrow> string \<Rightarrow> pipeline" where
  "init_pipeline td dir =
     \<lparr>texts_data = td, xml_output_dir = dir, aligned_texts = [], failed_pairs = [],
      files = Map.empty\<rparr>"

text \<open>An aligner for the examples: line i of one text with line i of the other.\<close>

definition line_count :: "string \<Rightarrow> nat" where
  "line_count s = Suc (length (filter (\<lambda>c. c = CHR ''\<newline>'') s))"

definition ex_aligner :: aligner where
  "ex_aligner src_text tgt_text src_lang tgt_lang =
     map (\<lambda>i. ([i], [i])) [0 ..< min (line_count src_text) (line_count tgt_text)]"

text \<open>One event with four documents in three groups; the document C has no text.\<close>

definition ex_event :: "text_row list" where
  "ex_event =
     [doc ''A'' ''E1'' ''en'' ''source'' ''written'' ''Hello.\<newline>World.'',
      doc ''B'' ''E1'' ''es'' ''target'' ''written'' ''Hola.\<newline>Mundo.'',
      doc ''C'' ''E1'' ''en'' ''source'' ''spoken'' [],
      doc ''D'' ''E1'' ''es'' ''target'' ''written'' ''Adios.'']"

text \<open>Two events with the same two groups; the ids 641 and 643 are those of the filter.\<close>

definition ex_two_events :: "text_row list" where
  "ex_two_events =
     [doc ''641'' ''E1'' ''en'' ''source'' ''written'' ''Hello.'',
      doc ''7'' ''E1'' ''es'' ''target'' ''written'' ''Hola.'',
      doc ''8'' ''E2'' ''en'' ''source'' ''written'' ''Bye.'',
      doc ''643'' ''E2'' ''es'' ''target'' ''written'' ''Adios.'']"

definition ex_reordered :: string where
  "ex_reordered =
     ''<linkGrp toDoc=\"placeholder_toDoc.xml\" fromDoc=\"placeholder_fromDoc.xml\">''
     @ ''<link status=\"auto\" xtargets=\"641:0;B:0\" type=\"1-1\" />''
     @ ''</linkGrp>''"

definition ex_pair_path :: string where
  "ex_pair_path = ''out/EPTIC.en_written_source.es_written_target.xml''"

definition ex_links :: "link list" where
  "ex_links =
     [make_link ''641'' ''B'' ([0], [0]),
      make_link ''A'' ''B'' ([1], [1]),
      make_link ''641'' ''B'' ([2, 3], [2])]"

definition ex_quoted :: "link list" where
  "ex_quoted = [\<lparr>xtargets = ''641:0;a'' @ [CHR 0x22] @ ''b:0'', type = ''1-1'', status = ''auto''\<rparr>]"

section \<open>Properties\<close>

subsection \<open>Loops\<close>

lemma for_each_append:
  "for_each body (xs @ ys) s
     = (case for_each body xs s of Inl e \<Rightarrow> Inl e | Inr s' \<Rightarrow> for_each body ys s')"
  by (induction xs arbitrary: s) (auto split: sum.splits)

lemma for_each_skip:
  "for_each (\<lambda>x s. if P x then body x s else Inr s) xs s = for_each body (filter P xs) s"
  by (induction xs arbitrary: s) (auto split: sum.splits)

lemma for_each_nested:
  "for_each (\<lambda>x. for_each (body x) (f x)) xs s
     = for_each (\<lambda>p. body (fst p) (snd p)) (concat (map (\<lambda>x. map (Pair x) (f x)) xs)) s"
proof (induction xs arbitrary: s)
  case Nil
  then show ?case by simp
next
  case (Cons x xs)
  have inner: "for_each (\<lambda>p. body (fst p) (snd p)) (map (Pair x) ys) t = for_each (body x) ys t"
    for ys t
    by (induction ys arbitrary: t) (auto split: sum.splits)
  show ?case
    by (simp add: for_each_append inner Cons.IH split: sum.splits)
qed

subsection \<open>Enumeration of the pairs of groups\<close>

lemma concat_if_filter:
  "concat (map (\<lambda>y. if P y then [f y] else []) ys) = map f (filter P ys)"
  by (induction ys) auto

lemma ordered_pairs_filter:
  "ordered_pairs ks = concat (map (\<lambda>k1. map (Pair k1) (filter ((<) k1) ks)) ks)"
  unfolding ordered_pairs_def by (simp add: concat_if_filter)

lemma ordered_pairs_Cons:
  assumes "\<forall>y\<in>set ks. k < y"
  shows "ordered_pairs (k # ks) = map (Pair k) ks @ ordered_pairs ks"
proof -
  have a: "filter ((<) k) (k # ks) = ks" using assms by (simp add: filter_id_conv)
  have c: "map (\<lambda>k1. map (Pair k1) (filter ((<) k1) (k # ks))) ks
         = map (\<lambda>k1. map (Pair k1) (filter ((<) k1) ks)) ks"
    using assms by (intro map_cong) auto
  have "ordered_pairs (k # ks)
      = map (Pair k) (filter ((<) k) (k # ks))
        @ concat (map (\<lambda>k1. map (Pair k1) (filter ((<) k1) (k # ks))) ks)"
    by (simp only: ordered_pairs_filter list.map concat.simps)
  also have "\<dots> = map (Pair k) ks @ ordered_pairs ks"
    by (simp only: a c ordered_pairs_filter)
  finally show ?thesis .
qed

lemma set_ordered_pairs: "set (ordered_pairs ks) = {(k1, k2). k1 \<in> set ks \<and> k2 \<in> set ks \<and> k1 < k2}"
  unfolding ordered_pairs_def by (auto split: if_splits)

lemma ordered_pairs_sorted:
  "sorted ks \<Longrightarrow> distinct ks \<Longrightarrow>
     distinct (ordered_pairs ks) \<and> 2 * length (ordered_pairs ks) = length ks * (length ks - 1)"
proof (induction ks)
  case Nil
  then show ?case by (simp add: ordered_pairs_def)
next
  case (Cons k ks)
  then have lt: "\<forall>y\<in>set ks. k < y" by (auto simp: less_le)
  have IH: "distinct (ordered_pairs ks)" "2 * length (ordered_pairs ks) = length ks * (length ks - 1)"
    using Cons by auto
  have d: "distinct (map (Pair k) ks)" using Cons.prems by (simp add: distinct_map inj_on_def)
  have disj: "set (map (Pair k) ks) \<inter> set (ordered_pairs ks) = {}"
    using Cons.prems by (auto simp: set_ordered_pairs)
  have len: "2 * (length ks + length (ordered_pairs ks)) = Suc (length ks) * length ks"
    using IH(2) by (cases "length ks") (auto simp: algebra_simps)
  show ?case
    using d disj IH(1) len by (simp add: ordered_pairs_Cons [OF lt])
qed

lemma keys_group_pairs:
  "map (\<lambda>cc. (fst (fst cc), fst (snd cc))) (group_pairs grp)
     = ordered_pairs (sort (remdups (map group_key_of grp)))"
  unfolding group_pairs_def ordered_pairs_def combinations_def groupby_def
  by (simp add: map_concat comp_def if_distrib [of "map _"] cong: if_cong)

lemma align_event_group_pairs:
  "align_event fromstring aligner grp st
     = for_each (align_group_pair fromstring aligner) (group_pairs grp) st"
proof -
  let ?P = "\<lambda>p::(group_key \<times> text_row list) \<times> (group_key \<times> text_row list). fst (fst p) < fst (snd p)"
  let ?all = "concat (map (\<lambda>c1. map (Pair c1) (combinations grp)) (combinations grp))"
  have "align_event fromstring aligner grp st
      = for_each (\<lambda>p s. if ?P p then align_group_pair fromstring aligner p s else Inr s) ?all st"
    unfolding align_event_def by (subst for_each_nested) (simp cong: if_cong)
  also have "\<dots> = for_each (align_group_pair fromstring aligner) (filter ?P ?all) st"
    by (rule for_each_skip)
  also have "filter ?P ?all = group_pairs grp"
    unfolding group_pairs_def
    by (simp add: filter_concat comp_def concat_if_filter filter_map)
  finally show ?thesis .
qed

lemma count_list_distinct: "distinct xs \<Longrightarrow> count_list xs x = (if x \<in> set xs then 1 else 0)"
  by (induction xs) auto

text \<open>
  C2. In one event the body of the two loops over \<^verbatim>\<open>combinations\<close> runs on the pairs of
  groups \<open>group_pairs\<close>. The pairs of keys it visits are exactly the pairs (k1, k2) of keys
  of the event with k1 < k2 in the lexicographic order of (lang, source_target,
  spoken_written); no pair is visited twice, of two distinct keys exactly one of the two
  orders is visited, no key is paired with itself, N distinct keys give N (N - 1) / 2 pairs,
  and fewer than two keys give none.
\<close>

theorem pair_enumeration:
  "align_event fromstring aligner grp st
     = for_each (align_group_pair fromstring aligner) (group_pairs grp) st
   \<and> set (map (\<lambda>cc. (fst (fst cc), fst (snd cc))) (group_pairs grp))
       = {(k1, k2). k1 \<in> group_key_of ` set grp \<and> k2 \<in> group_key_of ` set grp \<and> k1 < k2}
   \<and> distinct (map (\<lambda>cc. (fst (fst cc), fst (snd cc))) (group_pairs grp))
   \<and> (\<forall>k1 \<in> group_key_of ` set grp. \<forall>k2 \<in> group_key_of ` set grp. k1 \<noteq> k2 \<longrightarrow>
         count_list (map (\<lambda>cc. (fst (fst cc), fst (snd cc))) (group_pairs grp)) (k1, k2)
         + count_list (map (\<lambda>cc. (fst (fst cc), fst (snd cc))) (group_pairs grp)) (k2, k1) = 1)
   \<and> (\<forall>k. (k, k) \<notin> set (map (\<lambda>cc. (fst (fst cc), fst (snd cc))) (group_pairs grp)))
   \<and> 2 * length (group_pairs grp)
       = card (group_key_of ` set grp) * (card (group_key_of ` set grp) - 1)
   \<and> length (group_pairs grp)
       = card (group_key_of ` set grp) * (card (group_key_of ` set grp) - 1) div 2
   \<and> (card (group_key_of ` set grp) < 2 \<longrightarrow> group_pairs grp = [])"
proof -
  let ?ks = "sort (remdups (map group_key_of grp))"
  let ?v = "map (\<lambda>cc. (fst (fst cc), fst (snd cc))) (group_pairs grp)"
  have v: "?v = ordered_pairs ?ks" by (rule keys_group_pairs)
  have ks: "sorted ?ks" "distinct ?ks" "set ?ks = group_key_of ` set grp" by simp_all
  have n: "length ?ks = card (group_key_of ` set grp)"
    by (simp add: length_remdups_card_conv)
  have op: "distinct (ordered_pairs ?ks)" "2 * length (ordered_pairs ?ks) = length ?ks * (length ?ks - 1)"
    using ordered_pairs_sorted [OF ks(1,2)] by auto
  have s: "set ?v = {(k1, k2). k1 \<in> group_key_of ` set grp \<and> k2 \<in> group_key_of ` set grp \<and> k1 < k2}"
    unfolding v set_ordered_pairs ks(3) ..
  have d: "distinct ?v" unfolding v by (rule op(1))
  have len2: "2 * length (group_pairs grp) = card (group_key_of ` set grp) * (card (group_key_of ` set grp) - 1)"
    using op(2) unfolding n v [symmetric] by simp
  have once: "count_list ?v (k1, k2) + count_list ?v (k2, k1) = 1" if "k1 \<in> group_key_of ` set grp"
    "k2 \<in> group_key_of ` set grp" "k1 \<noteq> k2" for k1 k2
  proof -
    have "(k1, k2) \<in> set ?v \<longleftrightarrow> k1 < k2" "(k2, k1) \<in> set ?v \<longleftrightarrow> k2 < k1"
      using that unfolding s by auto
    then show ?thesis
      using that(3) by (auto simp: count_list_distinct [OF d] simp del: set_map)
  qed
  have self: "(k, k) \<notin> set ?v" for k unfolding s by simp
  have few: "group_pairs grp = []" if "card (group_key_of ` set grp) < 2"
  proof -
    have "card (group_key_of ` set grp) = 0 \<or> card (group_key_of ` set grp) = 1"
      using that by arith
    then have "card (group_key_of ` set grp) * (card (group_key_of ` set grp) - 1) = 0"
      by (elim disjE) (simp_all only: mult_zero_left diff_self_eq_0 mult_zero_right)
    then have "2 * length (group_pairs grp) = 0" using len2 by (simp only:)
    then show ?thesis by simp
  qed
  show ?thesis
    using align_event_group_pairs s d once self len2 few by (intro conjI ballI allI impI) (simp_all del: set_map)
qed

theorem pair_enumeration_witness:
  "length (group_pairs ex_event) = 3
   \<and> (\<exists>c1 g1 c2 g2. group_pairs ex_event ! 0 = (((''en'', ''source'', ''spoken''), g1), ((''en'', ''source'', ''written''), g2)))
   \<and> group_pairs [doc ''A'' ''E1'' ''en'' ''source'' ''written'' ''Hello.''] = []"
proof -
  have k3: "card (group_key_of ` set ex_event) = 3"
    by code_simp
  have k1: "card (group_key_of ` set [doc ''A'' ''E1'' ''en'' ''source'' ''written'' ''Hello.'']) < 2"
    by code_simp
  have a: "length (group_pairs ex_event) = 3"
    using pair_enumeration [of et_fromstring ex_aligner ex_event "init_pipeline ex_event ''out''"] unfolding k3 by simp
  have b: "group_pairs [doc ''A'' ''E1'' ''en'' ''source'' ''written'' ''Hello.''] = []"
    using pair_enumeration [of et_fromstring ex_aligner "[doc ''A'' ''E1'' ''en'' ''source'' ''written'' ''Hello.'']" "init_pipeline ex_event ''out''"] k1
    by blast
  have c: "\<exists>c1 g1 c2 g2. group_pairs ex_event ! 0 = (((''en'', ''source'', ''spoken''), g1), ((''en'', ''source'', ''written''), g2))"
    by (simp add: group_pairs_def combinations_def groupby_def ex_event_def doc_def group_key_of_def)
  show ?thesis using a b c by blast
qed

subsection \<open>The cross product of two groups\<close>

lemma length_attempts: "length (attempts group1 group2) = length group1 * length group2"
  unfolding attempts_def by (induction group1) auto

lemma set_attempts: "set (attempts group1 group2) = set group1 \<times> set group2"
  unfolding attempts_def by auto

lemma processed_text_of_member:
  "i \<in> id_col ` set td \<Longrightarrow> \<exists>t. processed_text_of td i = Inr t"
  unfolding processed_text_of_def
  by (cases "filter (\<lambda>r. id_col r = i) td") (auto simp: filter_empty_conv)

lemma align_sents_total:
  assumes "src_id \<in> id_col ` set td" "tgt_id \<in> id_col ` set td"
  shows "\<exists>r. align_sents aligner td src_id tgt_id lang1 lang2 = Inr r"
  using processed_text_of_member [OF assms(1)] processed_text_of_member [OF assms(2)]
  unfolding align_sents_def by auto

lemma align_rows_step:
  assumes "id_col row1 \<in> id_col ` set (texts_data st)" "id_col row2 \<in> id_col ` set (texts_data st)"
  shows "align_rows aligner pn lang1 lang2 row1 row2 (results, st)
       = Inr (results @ links_of aligner (texts_data st) lang1 lang2 (row1, row2),
              st\<lparr>aligned_texts := aligned_texts st
                     @ map (record_of pn) (filter (succeeds aligner (texts_data st) lang1 lang2) [(row1, row2)]),
                 failed_pairs := failed_pairs st
                     @ map (record_of pn) (filter (\<lambda>p. \<not> succeeds aligner (texts_data st) lang1 lang2 p) [(row1, row2)])\<rparr>)"
proof -
  obtain r where r: "align_sents aligner (texts_data st) (id_col row1) (id_col row2) lang1 lang2 = Inr r"
    using align_sents_total [OF assms] by blast
  show ?thesis
    unfolding align_rows_def links_of_def succeeds_def record_of_def
    by (simp add: r split: option.splits list.splits)
qed

lemma for_each_align_rows:
  assumes "\<forall>p \<in> set ps. id_col (fst p) \<in> id_col ` set (texts_data st) \<and> id_col (snd p) \<in> id_col ` set (texts_data st)"
  shows "for_each (\<lambda>p. align_rows aligner pn lang1 lang2 (fst p) (snd p)) ps (results, st)
       = Inr (results @ concat (map (links_of aligner (texts_data st) lang1 lang2) ps),
              st\<lparr>aligned_texts := aligned_texts st
                     @ map (record_of pn) (filter (succeeds aligner (texts_data st) lang1 lang2) ps),
                 failed_pairs := failed_pairs st
                     @ map (record_of pn) (filter (\<lambda>p. \<not> succeeds aligner (texts_data st) lang1 lang2 p) ps)\<rparr>)"
  using assms
proof (induction ps arbitrary: results st)
  case Nil
  then show ?case by simp
next
  case (Cons p ps)
  obtain row1 row2 where p: "p = (row1, row2)" by (cases p)
  have step: "align_rows aligner pn lang1 lang2 row1 row2 (results, st) = Inr (results @ links_of aligner (texts_data st) lang1 lang2 (row1, row2),
              st\<lparr>aligned_texts := aligned_texts st
                     @ map (record_of pn) (filter (succeeds aligner (texts_data st) lang1 lang2) [(row1, row2)]),
                 failed_pairs := failed_pairs st
                     @ map (record_of pn) (filter (\<lambda>p. \<not> succeeds aligner (texts_data st) lang1 lang2 p) [(row1, row2)])\<rparr>)"
    using Cons.prems by (intro align_rows_step) (auto simp: p)
  show ?case
    using Cons.prems
    by (simp add: p step Cons.IH)
qed

lemma align_groups_result:
  assumes "set group1 \<subseteq> set (texts_data st)" "set group2 \<subseteq> set (texts_data st)"
  shows "align_groups aligner pn lang1 lang2 group1 group2 (results, st)
       = Inr (results @ concat (map (links_of aligner (texts_data st) lang1 lang2) (attempts group1 group2)),
              st\<lparr>aligned_texts := aligned_texts st
                     @ map (record_of pn) (filter (succeeds aligner (texts_data st) lang1 lang2) (attempts group1 group2)),
                 failed_pairs := failed_pairs st
                     @ map (record_of pn) (filter (\<lambda>p. \<not> succeeds aligner (texts_data st) lang1 lang2 p) (attempts group1 group2))\<rparr>)"
proof -
  have "align_groups aligner pn lang1 lang2 group1 group2 (results, st)
      = for_each (\<lambda>p. align_rows aligner pn lang1 lang2 (fst p) (snd p)) (attempts group1 group2) (results, st)"
    unfolding align_groups_def attempts_def by (rule for_each_nested)
  also have "\<dots> = Inr (results @ concat (map (links_of aligner (texts_data st) lang1 lang2) (attempts group1 group2)),
              st\<lparr>aligned_texts := aligned_texts st
                     @ map (record_of pn) (filter (succeeds aligner (texts_data st) lang1 lang2) (attempts group1 group2)),
                 failed_pairs := failed_pairs st
                     @ map (record_of pn) (filter (\<lambda>p. \<not> succeeds aligner (texts_data st) lang1 lang2 p) (attempts group1 group2))\<rparr>)"
    using assms by (intro for_each_align_rows) (auto simp: set_attempts)
  finally show ?thesis .
qed

text \<open>
  C3. For two groups of rows of the table with m and n rows, the two loops over the rows
  call \<^verbatim>\<open>_align_sents\<close> on the m * n pairs of \<open>attempts\<close>, one row of the first group
  with one row of the second; the loops end without an exception, and every pair adds
  one record, to \<^verbatim>\<open>aligned_texts\<close> when the call gave a non-empty list and to
  \<^verbatim>\<open>failed_pairs\<close> otherwise.
\<close>

theorem cross_product:
  assumes "set group1 \<subseteq> set (texts_data st)" "set group2 \<subseteq> set (texts_data st)"
  shows "\<exists>results' st'.
           align_groups aligner pn lang1 lang2 group1 group2 (results, st) = Inr (results', st')
         \<and> length (attempts group1 group2) = length group1 * length group2
         \<and> aligned_texts st' = aligned_texts st
              @ map (record_of pn) (filter (succeeds aligner (texts_data st) lang1 lang2) (attempts group1 group2))
         \<and> failed_pairs st' = failed_pairs st
              @ map (record_of pn) (filter (\<lambda>p. \<not> succeeds aligner (texts_data st) lang1 lang2 p) (attempts group1 group2))
         \<and> length (aligned_texts st') + length (failed_pairs st')
             = length (aligned_texts st) + length (failed_pairs st) + length group1 * length group2"
proof -
  have "length (filter (succeeds aligner (texts_data st) lang1 lang2) (attempts group1 group2))
      + length (filter (\<lambda>p. \<not> succeeds aligner (texts_data st) lang1 lang2 p) (attempts group1 group2))
      = length group1 * length group2"
    using sum_length_filter_compl [of "succeeds aligner (texts_data st) lang1 lang2" "attempts group1 group2"]
    by (simp add: length_attempts)
  then show ?thesis
    by (simp add: align_groups_result [OF assms] length_attempts)
qed

theorem cross_product_witness:
  "\<exists>results' st'.
      align_groups ex_aligner ''p'' ''en'' ''es'' [ex_event ! 0, ex_event ! 2] [ex_event ! 1, ex_event ! 3]
        ([], init_pipeline ex_event ''out'') = Inr (results', st')
    \<and> aligned_texts st' = [(''A'', ''B'', ''p''), (''A'', ''D'', ''p'')]
    \<and> failed_pairs st' = [(''C'', ''B'', ''p''), (''C'', ''D'', ''p'')]
    \<and> length (aligned_texts st') + length (failed_pairs st') = 2 * 2"
proof -
  let ?st = "init_pipeline ex_event ''out''"
  let ?g1 = "[ex_event ! 0, ex_event ! 2]"
  let ?g2 = "[ex_event ! 1, ex_event ! 3]"
  have sub: "set ?g1 \<subseteq> set (texts_data ?st)" "set ?g2 \<subseteq> set (texts_data ?st)"
    by (simp_all add: init_pipeline_def ex_event_def)
  have a: "aligned_texts ?st @ map (record_of ''p'')
             (filter (succeeds ex_aligner (texts_data ?st) ''en'' ''es'') (attempts ?g1 ?g2))
           = [(''A'', ''B'', ''p''), (''A'', ''D'', ''p'')]"
    by code_simp
  have f: "failed_pairs ?st @ map (record_of ''p'')
             (filter (\<lambda>p. \<not> succeeds ex_aligner (texts_data ?st) ''en'' ''es'' p) (attempts ?g1 ?g2))
           = [(''C'', ''B'', ''p''), (''C'', ''D'', ''p'')]"
    by code_simp
  obtain results' st' where
    r: "align_groups ex_aligner ''p'' ''en'' ''es'' ?g1 ?g2 ([], ?st) = Inr (results', st')"
      "aligned_texts st' = [(''A'', ''B'', ''p''), (''A'', ''D'', ''p'')]"
      "failed_pairs st' = [(''C'', ''B'', ''p''), (''C'', ''D'', ''p'')]"
    using cross_product [OF sub, of ex_aligner "''p''" "''en''" "''es''" "[]"] unfolding a f
    by blast
  show ?thesis
    using r by (intro exI [of _ results'] exI [of _ st']) simp
qed

subsection \<open>Documents without text\<close>

lemma filter_id_distinct:
  "distinct (map id_col td) \<Longrightarrow> r \<in> set td \<Longrightarrow> filter (\<lambda>x. id_col x = id_col r) td = [r]"
proof (induction td)
  case Nil
  then show ?case by simp
next
  case (Cons a td)
  show ?case
  proof (cases "a = r")
    case True
    have "id_col r \<notin> id_col ` set td"
      using Cons.prems(1) True by simp
    then have "\<forall>x \<in> set td. id_col x \<noteq> id_col r"
      by (metis imageI)
    then have "filter (\<lambda>x. id_col x = id_col r) td = []"
      by (simp add: filter_empty_conv)
    then show ?thesis using True by simp
  next
    case False
    then have "r \<in> set td" using Cons.prems by simp
    moreover have "id_col a \<noteq> id_col r" using Cons.prems(1) \<open>r \<in> set td\<close> by auto
    ultimately show ?thesis using Cons by simp
  qed
qed

lemma processed_text_of_distinct:
  "distinct (map id_col td) \<Longrightarrow> r \<in> set td \<Longrightarrow> processed_text_of td (id_col r) = Inr (processed_text r)"
  unfolding processed_text_of_def by (simp add: filter_id_distinct)

text \<open>
  C4. When the ids of the table are distinct and one of two rows of the table has an empty
  text, \<^verbatim>\<open>_align_sents\<close> returns \<^verbatim>\<open>None\<close> whatever the aligner is (the aligner is not
  called) and raises nothing; the step of the loop leaves the list of links as it is and
  adds the pair to \<^verbatim>\<open>failed_pairs\<close>, and the loop goes on from the state it returns.
\<close>

theorem empty_text_skip:
  assumes "distinct (map id_col (texts_data st))"
    and "row1 \<in> set (texts_data st)" and "row2 \<in> set (texts_data st)"
    and "processed_text row1 = [] \<or> processed_text row2 = []"
  shows "align_sents aligner (texts_data st) (id_col row1) (id_col row2) lang1 lang2 = Inr None
       \<and> align_rows aligner pn lang1 lang2 row1 row2 (results, st)
           = Inr (results, st\<lparr>failed_pairs := failed_pairs st @ [(id_col row1, id_col row2, pn)]\<rparr>)"
proof -
  have t1: "processed_text_of (texts_data st) (id_col row1) = Inr (processed_text row1)"
    using assms(1,2) by (rule processed_text_of_distinct)
  have t2: "processed_text_of (texts_data st) (id_col row2) = Inr (processed_text row2)"
    using assms(1,3) by (rule processed_text_of_distinct)
  have a: "align_sents aligner (texts_data st) (id_col row1) (id_col row2) lang1 lang2 = Inr None"
    unfolding align_sents_def using assms(4) by (auto simp: t1 t2)
  show ?thesis
    unfolding align_rows_def by (simp add: a)
qed

theorem empty_text_skip_witness:
  "align_sents ex_aligner ex_event ''C'' ''B'' ''en'' ''es'' = Inr None
   \<and> align_rows ex_aligner ''p'' ''en'' ''es'' (ex_event ! 2) (ex_event ! 1) ([], init_pipeline ex_event ''out'')
       = Inr ([], (init_pipeline ex_event ''out'')\<lparr>failed_pairs := [(''C'', ''B'', ''p'')]\<rparr>)"
proof -
  let ?st = "init_pipeline ex_event ''out''"
  have d: "distinct (map id_col (texts_data ?st))"
    by (simp add: init_pipeline_def ex_event_def doc_def)
  have m: "ex_event ! 2 \<in> set (texts_data ?st)" "ex_event ! 1 \<in> set (texts_data ?st)"
    by (simp_all add: init_pipeline_def ex_event_def)
  have e: "processed_text (ex_event ! 2) = [] \<or> processed_text (ex_event ! 1) = []"
    by (simp add: ex_event_def doc_def)
  show ?thesis
    using empty_text_skip [OF d m e, of ex_aligner "''en''" "''es''" "''p''" "[]"]
    by (simp add: init_pipeline_def ex_event_def doc_def)
qed

subsection \<open>From the aligner's result to links\<close>

lemma digit_value_digit_char: "d < 10 \<Longrightarrow> digit_value (digit_char d) = d"
  unfolding digit_value_def digit_char_def by simp

lemma decimal_value_str_nat: "decimal_value (str_nat n) = n"
proof (induction n rule: str_nat.induct)
  case (1 n)
  show ?case
  proof (cases "n < 10")
    case True
    then show ?thesis
      by (subst str_nat.simps) (simp add: decimal_value_def digit_value_digit_char)
  next
    case False
    have "decimal_value (str_nat n) = 10 * decimal_value (str_nat (n div 10)) + digit_value (digit_char (n mod 10))"
      using False by (subst str_nat.simps) (simp add: decimal_value_def)
    then show ?thesis using 1 False by (simp add: digit_value_digit_char)
  qed
qed

lemma str_nat_digits: "set (str_nat n) \<subseteq> digit_char ` {..<10}"
proof (induction n rule: str_nat.induct)
  case (1 n)
  show ?case
  proof (cases "n < 10")
    case True
    then show ?thesis by (subst str_nat.simps) simp
  next
    case False
    then show ?thesis using 1 by (subst str_nat.simps) auto
  qed
qed

lemma join_spec_side:
  "join '' '' (map (\<lambda>idx. doc_id @ '':'' @ str_nat idx) idxs) = spec_side doc_id idxs"
proof (cases idxs)
  case Nil
  then show ?thesis by simp
next
  case (Cons i js)
  have "join '' '' (map (\<lambda>idx. doc_id @ '':'' @ str_nat idx) (i # js))
      = doc_id @ '':'' @ str_nat i @ concat (map (\<lambda>i. '' '' @ doc_id @ '':'' @ str_nat i) js)" for i
    by (induction js arbitrary: i) auto
  then show ?thesis using Cons by simp
qed

lemma make_link_spec:
  "xtargets (make_link src_id tgt_id (l, r)) = spec_xtargets src_id tgt_id l r"
  "type (make_link src_id tgt_id (l, r)) = str_nat (length l) @ ''-'' @ str_nat (length r)"
  "status (make_link src_id tgt_id (l, r)) = ''auto''"
  unfolding make_link_def spec_xtargets_def
  using join_spec_side [of src_id l] join_spec_side [of tgt_id r] by (simp_all add: Let_def)

text \<open>
  C5. When \<^verbatim>\<open>_align_sents\<close> returns a list, both texts were found and are not empty, and
  the list has one link for each pair (left_side, right_side) of the aligner's result, in
  the aligner's order: link i has the type "m-n" for the lengths m and n of the two sides
  of pair i in decimal, the xtargets of the specification's format (the entries
  "src_id:idx" of the left side separated by spaces, a semicolon, the entries
  "tgt_id:idx" of the right side separated by spaces), and the status auto.
\<close>

theorem link_mapping:
  assumes "align_sents aligner td src_id tgt_id lang1 lang2 = Inr (Some links)"
  shows "\<exists>src_text tgt_text.
           processed_text_of td src_id = Inr src_text \<and> processed_text_of td tgt_id = Inr tgt_text
         \<and> src_text \<noteq> [] \<and> tgt_text \<noteq> []
         \<and> length links = length (aligner src_text tgt_text lang1 lang2)
         \<and> (\<forall>i < length links.
               type (links ! i)
                 = str_nat (length (fst (aligner src_text tgt_text lang1 lang2 ! i))) @ ''-''
                   @ str_nat (length (snd (aligner src_text tgt_text lang1 lang2 ! i)))
             \<and> xtargets (links ! i)
                 = spec_xtargets src_id tgt_id (fst (aligner src_text tgt_text lang1 lang2 ! i))
                     (snd (aligner src_text tgt_text lang1 lang2 ! i))
             \<and> status (links ! i) = ''auto'')"
proof -
  obtain src_text where s: "processed_text_of td src_id = Inr src_text"
    using assms unfolding align_sents_def by (auto split: sum.splits)
  obtain tgt_text where t: "processed_text_of td tgt_id = Inr tgt_text"
    using assms unfolding align_sents_def by (auto split: sum.splits)
  have ne: "src_text \<noteq> []" "tgt_text \<noteq> []"
    using assms unfolding align_sents_def by (auto simp: s t split: if_splits)
  have l: "links = map (make_link src_id tgt_id) (aligner src_text tgt_text lang1 lang2)"
    using assms ne unfolding align_sents_def by (simp add: s t)
  have "type (links ! i) = str_nat (length (fst (aligner src_text tgt_text lang1 lang2 ! i))) @ ''-''
                   @ str_nat (length (snd (aligner src_text tgt_text lang1 lang2 ! i)))
      \<and> xtargets (links ! i) = spec_xtargets src_id tgt_id (fst (aligner src_text tgt_text lang1 lang2 ! i))
                     (snd (aligner src_text tgt_text lang1 lang2 ! i))
      \<and> status (links ! i) = ''auto''" if "i < length links" for i
  proof -
    obtain a b where ab: "aligner src_text tgt_text lang1 lang2 ! i = (a, b)"
      by (cases "aligner src_text tgt_text lang1 lang2 ! i")
    show ?thesis using that by (simp add: l ab make_link_spec)
  qed
  then show ?thesis using s t ne l by auto
qed

theorem link_mapping_witness:
  "align_sents ex_aligner ex_event ''A'' ''B'' ''en'' ''es''
     = Inr (Some [\<lparr>xtargets = ''A:0;B:0'', type = ''1-1'', status = ''auto''\<rparr>,
                  \<lparr>xtargets = ''A:1;B:1'', type = ''1-1'', status = ''auto''\<rparr>])
   \<and> (\<exists>src_text tgt_text.
         processed_text_of ex_event ''A'' = Inr src_text \<and> processed_text_of ex_event ''B'' = Inr tgt_text
       \<and> length (ex_aligner src_text tgt_text ''en'' ''es'') = 2
       \<and> spec_xtargets ''A'' ''B'' (fst (ex_aligner src_text tgt_text ''en'' ''es'' ! 1))
             (snd (ex_aligner src_text tgt_text ''en'' ''es'' ! 1)) = ''A:1;B:1'')"
proof -
  have h: "align_sents ex_aligner ex_event ''A'' ''B'' ''en'' ''es''
     = Inr (Some [\<lparr>xtargets = ''A:0;B:0'', type = ''1-1'', status = ''auto''\<rparr>,
                  \<lparr>xtargets = ''A:1;B:1'', type = ''1-1'', status = ''auto''\<rparr>])"
    by code_simp
  show ?thesis
    using link_mapping [OF h] h by (auto simp: numeral_2_eq_2)
qed

subsection \<open>Strings\<close>

lemma replace_single:
  "replace [c] new s = concat (map (\<lambda>x. if x = c then new else [x]) s)"
  by (induction s) auto

lemma set_replace_single: "set (replace [c] new s) \<subseteq> (set s - {c}) \<union> set new"
  unfolding replace_single by (auto split: if_splits)

lemma replace_single_absent: "c \<notin> set s \<Longrightarrow> replace [c] new s = s"
  by (induction s) auto

lemma escape_attrib_chars:
  "CHR ''<'' \<notin> set (escape_attrib v)" "CHR ''>'' \<notin> set (escape_attrib v)"
  "CHR 0x22 \<notin> set (escape_attrib v)"
proof -
  let ?s1 = "replace ''&'' ''&amp;'' v"
  let ?s2 = "replace ''<'' ''&lt;'' ?s1"
  let ?s3 = "replace ''>'' ''&gt;'' ?s2"
  let ?s4 = "replace [CHR 0x22] ''&quot;'' ?s3"
  let ?s5 = "replace [CHR 0x0D] ''&#13;'' ?s4"
  let ?s6 = "replace [CHR 0x0A] ''&#10;'' ?s5"
  let ?s7 = "replace [CHR 0x09] ''&#09;'' ?s6"
  have e: "escape_attrib v = ?s7" by (simp add: escape_attrib_def)
  have 2: "CHR ''<'' \<notin> set ?s2" using set_replace_single [of "CHR ''<''" "''&lt;''" ?s1] by auto
  have 3: "CHR ''<'' \<notin> set ?s3" "CHR ''>'' \<notin> set ?s3"
    using set_replace_single [of "CHR ''>''" "''&gt;''" ?s2] 2 by auto
  have 4: "CHR ''<'' \<notin> set ?s4" "CHR ''>'' \<notin> set ?s4" "CHR 0x22 \<notin> set ?s4"
    using set_replace_single [of "CHR 0x22" "''&quot;''" ?s3] 3 by auto
  have 5: "CHR ''<'' \<notin> set ?s5" "CHR ''>'' \<notin> set ?s5" "CHR 0x22 \<notin> set ?s5"
    using set_replace_single [of "CHR 0x0D" "''&#13;''" ?s4] 4 by auto
  have 6: "CHR ''<'' \<notin> set ?s6" "CHR ''>'' \<notin> set ?s6" "CHR 0x22 \<notin> set ?s6"
    using set_replace_single [of "CHR 0x0A" "''&#10;''" ?s5] 5 by auto
  have 7: "CHR ''<'' \<notin> set ?s7" "CHR ''>'' \<notin> set ?s7" "CHR 0x22 \<notin> set ?s7"
    using set_replace_single [of "CHR 0x09" "''&#09;''" ?s6] 6 by auto
  show "CHR ''<'' \<notin> set (escape_attrib v)" "CHR ''>'' \<notin> set (escape_attrib v)"
    "CHR 0x22 \<notin> set (escape_attrib v)"
    unfolding e using 7 by blast+
qed

lemma replace_close_empty:
  "CHR ''>'' \<notin> set xs \<Longrightarrow>
     replace '' />'' ''/>'' (xs @ '' />'' @ rest) = xs @ ''/>'' @ replace '' />'' ''/>'' rest"
proof (induction xs)
  case Nil
  then show ?case by simp
next
  case (Cons c cs)
  have "\<not> startswith (c # cs @ '' />'' @ rest) '' />''"
    using Cons.prems by (cases cs; cases "tl cs") auto
  then show ?case using Cons by simp
qed

lemma replace_close_open:
  "CHR ''>'' \<notin> set xs \<Longrightarrow> xs \<noteq> [] \<Longrightarrow> last xs \<noteq> CHR ''/'' \<Longrightarrow>
     replace '' />'' ''/>'' (xs @ ''>'' @ rest) = xs @ ''>'' @ replace '' />'' ''/>'' rest"
proof (induction xs)
  case Nil
  then show ?case by simp
next
  case (Cons c cs)
  have n: "\<not> startswith (c # cs @ ''>'' @ rest) '' />''"
    using Cons.prems by (cases cs; cases "tl cs") auto
  show ?case
  proof (cases cs)
    case Nil
    then show ?thesis using n by simp
  next
    case (Cons d ds)
    then show ?thesis using n Cons.IH Cons.prems by simp
  qed
qed

lemma re_sub_tags_no_gt: "CHR ''>'' \<notin> set xs \<Longrightarrow> re_sub_tags (xs @ ys) = xs @ re_sub_tags ys"
  by (induction xs) auto

lemma re_sub_tags_between:
  "CHR ''>'' \<notin> set xs \<Longrightarrow>
     re_sub_tags (xs @ ''><'' @ rest) = xs @ ''>\<newline><'' @ re_sub_tags rest"
  by (simp add: re_sub_tags_no_gt isspace_def)

lemma re_sub_tags_end: "CHR ''>'' \<notin> set xs \<Longrightarrow> re_sub_tags (xs @ ''>'') = xs @ ''>''"
  by (simp add: re_sub_tags_no_gt)

lemma strip_id: "s \<noteq> [] \<Longrightarrow> \<not> isspace (hd s) \<Longrightarrow> \<not> isspace (last s) \<Longrightarrow> strip s = s"
proof -
  assume a: "s \<noteq> []" "\<not> isspace (hd s)" "\<not> isspace (last s)"
  have 1: "dropWhile isspace s = s" using a by (cases s) auto
  have 2: "dropWhile isspace (rev s) = rev s" using a by (cases "rev s") (auto simp: last_rev hd_rev)
  show ?thesis unfolding strip_def by (simp add: 1 2)
qed

lemma startswith_iff: "startswith s p \<longleftrightarrow> (\<exists>v. s = p @ v)"
  by (induction s p rule: startswith.induct) auto

lemma contains_iff: "contains s p \<longleftrightarrow> (\<exists>u v. s = u @ p @ v)"
proof (induction s)
  case Nil
  show ?case by auto
next
  case (Cons c cs)
  show ?case
  proof
    assume "contains (c # cs) p"
    then consider "startswith (c # cs) p" | "contains cs p" by auto
    then show "\<exists>u v. c # cs = u @ p @ v"
    proof cases
      case 1
      then obtain v where "c # cs = p @ v" unfolding startswith_iff by blast
      then have "c # cs = [] @ p @ v" by simp
      then show ?thesis by blast
    next
      case 2
      then obtain u v where "cs = u @ p @ v" using Cons.IH by blast
      then have "c # cs = (c # u) @ p @ v" by simp
      then show ?thesis by blast
    qed
  next
    assume "\<exists>u v. c # cs = u @ p @ v"
    then obtain u v where uv: "c # cs = u @ p @ v" by blast
    show "contains (c # cs) p"
    proof (cases u)
      case Nil
      then have "startswith (c # cs) p" unfolding startswith_iff using uv by auto
      then show ?thesis by simp
    next
      case (Cons d u')
      then have "cs = u' @ p @ v" using uv by simp
      then have "contains cs p" using Cons.IH by blast
      then show ?thesis by simp
    qed
  qed
qed

lemma join_member: "x \<in> set xs \<Longrightarrow> \<exists>u v. join sep xs = u @ x @ v"
proof (induction sep xs rule: join.induct)
  case (1 sep)
  then show ?case by simp
next
  case (2 sep y)
  then have "join sep [y] = [] @ x @ []" by simp
  then show ?case by blast
next
  case (3 sep y z zs)
  show ?case
  proof (cases "x = y")
    case True
    then have "join sep (y # z # zs) = [] @ x @ (sep @ join sep (z # zs))" by simp
    then show ?thesis by blast
  next
    case False
    then have "x \<in> set (z # zs)" using 3 by auto
    then obtain u v where "join sep (z # zs) = u @ x @ v" using 3 by blast
    then have "join sep (y # z # zs) = (y @ sep @ u) @ x @ v" by simp
    then show ?thesis by blast
  qed
qed

subsection \<open>The text written for a link group\<close>

lemma link_body_no_gt: "CHR ''>'' \<notin> set (link_body l)"
  unfolding link_body_def using escape_attrib_chars(2) by simp

lemma link_body_last: "link_body l \<noteq> [] \<and> last (link_body l) = CHR 0x22"
  unfolding link_body_def by simp

lemma tostring_link_element: "tostring (link_element l) = ''<'' @ link_body l @ '' />''"
  unfolding link_element_def link_body_def by simp

lemma escape_attrib_placeholders:
  "escape_attrib ''placeholder_toDoc.xml'' = ''placeholder_toDoc.xml''"
  "escape_attrib ''placeholder_fromDoc.xml'' = ''placeholder_fromDoc.xml''"
  unfolding escape_attrib_def by (simp_all add: replace_single_absent)

lemma tostring_link_group:
  "tostring (link_group ls)
     = ''<'' @ group_body
       @ (if ls = [] then '' />''
          else ''>'' @ concat (map (\<lambda>l. ''<'' @ link_body l @ '' />'') ls) @ ''</linkGrp>'')"
proof -
  have "map tostring (map link_element ls) = map (\<lambda>l. ''<'' @ link_body l @ '' />'') ls"
    by (simp add: tostring_link_element del: tostring.simps)
  then show ?thesis
    unfolding link_group_def group_body_def
    by (simp add: escape_attrib_placeholders del: map_map)
qed

lemma replace_links:
  "replace '' />'' ''/>'' (concat (map (\<lambda>l. ''<'' @ link_body l @ '' />'') ls) @ ''</linkGrp>'')
     = concat (map (\<lambda>l. ''<'' @ link_body l @ ''/>'') ls) @ ''</linkGrp>''"
proof (induction ls)
  case Nil
  show ?case by simp
next
  case (Cons l ls)
  have "CHR ''>'' \<notin> set (''<'' @ link_body l)" using link_body_no_gt by simp
  from replace_close_empty [OF this]
  show ?case using Cons by simp
qed

lemma replace_link_group:
  "replace '' />'' ''/>'' (tostring (link_group ls))
     = ''<'' @ group_body
       @ (if ls = [] then ''/>''
          else ''>'' @ concat (map (\<lambda>l. ''<'' @ link_body l @ ''/>'') ls) @ ''</linkGrp>'')"
proof -
  have g: "CHR ''>'' \<notin> set (''<'' @ group_body)" "''<'' @ group_body \<noteq> []"
    "last (''<'' @ group_body) \<noteq> CHR ''/''"
    unfolding group_body_def by simp_all
  show ?thesis
  proof (cases "ls = []")
    case True
    have "replace '' />'' ''/>'' ((''<'' @ group_body) @ '' />'' @ [])
        = (''<'' @ group_body) @ ''/>'' @ replace '' />'' ''/>'' []"
      by (rule replace_close_empty [OF g(1)])
    then show ?thesis using True by (simp add: tostring_link_group del: tostring.simps)
  next
    case False
    have "replace '' />'' ''/>''
            ((''<'' @ group_body) @ ''>''
               @ concat (map (\<lambda>l. ''<'' @ link_body l @ '' />'') ls) @ ''</linkGrp>'')
        = (''<'' @ group_body) @ ''>''
            @ replace '' />'' ''/>''
                (concat (map (\<lambda>l. ''<'' @ link_body l @ '' />'') ls) @ ''</linkGrp>'')"
      by (rule replace_close_open [OF g])
    then show ?thesis
      using False by (simp add: tostring_link_group replace_links [simplified] del: tostring.simps)
  qed
qed

lemma re_sub_tags_tokens:
  "CHR ''>'' \<notin> set xs \<Longrightarrow> \<forall>t \<in> set ts. CHR ''>'' \<notin> set t \<Longrightarrow>
     re_sub_tags (xs @ ''>'' @ concat (map (\<lambda>t. ''<'' @ t @ ''>'') ts))
       = xs @ ''>'' @ concat (map (\<lambda>t. ''\<newline><'' @ t @ ''>'') ts)"
proof (induction ts arbitrary: xs)
  case Nil
  then show ?case using re_sub_tags_end [of xs] by simp
next
  case (Cons t ts)
  have "re_sub_tags (xs @ ''><'' @ (t @ ''>'' @ concat (map (\<lambda>t. ''<'' @ t @ ''>'') ts)))
      = xs @ ''>\<newline><'' @ re_sub_tags (t @ ''>'' @ concat (map (\<lambda>t. ''<'' @ t @ ''>'') ts))"
    using Cons.prems(1) by (rule re_sub_tags_between)
  moreover have "re_sub_tags (t @ ''>'' @ concat (map (\<lambda>t. ''<'' @ t @ ''>'') ts))
      = t @ ''>'' @ concat (map (\<lambda>t. ''\<newline><'' @ t @ ''>'') ts)"
    using Cons.prems(2) by (intro Cons.IH) auto
  ultimately show ?case by simp
qed

lemma re_sub_link_group:
  "re_sub_tags (replace '' />'' ''/>'' (tostring (link_group ls)))
     = ''<'' @ group_body
       @ (if ls = [] then ''/>''
          else ''>'' @ concat (map (\<lambda>l. ''\<newline><'' @ link_body l @ ''/>'') ls)
               @ ''\<newline></linkGrp>'')"
proof (cases "ls = []")
  case True
  have "CHR ''>'' \<notin> set (''<'' @ group_body @ ''/'')" unfolding group_body_def by simp
  from re_sub_tags_end [OF this] show ?thesis
    using True by (simp add: replace_link_group del: tostring.simps)
next
  case False
  let ?ts = "map (\<lambda>l. link_body l @ ''/'') ls @ [''/linkGrp'']"
  have x: "CHR ''>'' \<notin> set (''<'' @ group_body)" unfolding group_body_def by simp
  have t: "\<forall>t \<in> set ?ts. CHR ''>'' \<notin> set t" using link_body_no_gt by auto
  have "re_sub_tags ((''<'' @ group_body) @ ''>'' @ concat (map (\<lambda>t. ''<'' @ t @ ''>'') ?ts))
      = (''<'' @ group_body) @ ''>'' @ concat (map (\<lambda>t. ''\<newline><'' @ t @ ''>'') ?ts)"
    by (rule re_sub_tags_tokens [OF x t])
  then show ?thesis
    using False by (simp add: replace_link_group comp_def del: tostring.simps)
qed

lemma replace_quote_append:
  "replace [c] new (xs @ ys) = replace [c] new xs @ replace [c] new ys"
  by (simp add: replace_single)

lemma quote_link_body:
  "replace [CHR 0x22] [CHR 0x27] (''<'' @ link_body l @ ''/>'') = canonical_link l"
  unfolding link_body_def canonical_link_def
  using escape_attrib_chars(3) [of "type l"] escape_attrib_chars(3) [of "xtargets l"]
    escape_attrib_chars(3) [of "status l"]
  by (simp add: replace_quote_append replace_single_absent)

lemma quote_links:
  "replace [CHR 0x22] [CHR 0x27] (concat (map (\<lambda>l. ''\<newline><'' @ link_body l @ ''/>'') ls))
     = concat (map (\<lambda>l. ''\<newline>'' @ canonical_link l) ls)"
proof (induction ls)
  case Nil
  show ?case by simp
next
  case (Cons l ls)
  let ?rest = "concat (map (\<lambda>l. ''\<newline><'' @ link_body l @ ''/>'') ls)"
  have "replace [CHR 0x22] [CHR 0x27] ((''\<newline>'' @ (''<'' @ link_body l @ ''/>'')) @ ?rest)
      = (replace [CHR 0x22] [CHR 0x27] ''\<newline>''
         @ replace [CHR 0x22] [CHR 0x27] (''<'' @ link_body l @ ''/>''))
        @ replace [CHR 0x22] [CHR 0x27] ?rest"
    by (simp only: replace_quote_append)
  also have "\<dots> = (''\<newline>'' @ canonical_link l)
        @ concat (map (\<lambda>l. ''\<newline>'' @ canonical_link l) ls)"
    unfolding quote_link_body Cons.IH by simp
  finally show ?case by simp
qed

lemma canonical_link_group:
  "xml_declaration @ ''\<newline>''
     @ replace [CHR 0x22] [CHR 0x27]
         (strip (re_sub_tags (replace '' />'' ''/>'' (tostring (link_group ls)))))
   = canonical_xml ls"
proof -
  let ?s = "re_sub_tags (replace '' />'' ''/>'' (tostring (link_group ls)))"
  have s: "?s = ''<'' @ group_body
       @ (if ls = [] then ''/>''
          else ''>'' @ concat (map (\<lambda>l. ''\<newline><'' @ link_body l @ ''/>'') ls)
               @ ''\<newline></linkGrp>'')"
    by (rule re_sub_link_group)
  have "?s \<noteq> []" "\<not> isspace (hd ?s)" "\<not> isspace (last ?s)"
    unfolding s by (simp_all add: isspace_def)
  then have st: "strip ?s = ?s" by (rule strip_id)
  have g: "replace [CHR 0x22] [CHR 0x27] (''<'' @ group_body)
         = ''<linkGrp toDoc='placeholder_toDoc.xml' fromDoc='placeholder_fromDoc.xml'' @ [CHR 0x27]"
    by (simp add: group_body_def)
  show ?thesis
  proof (cases "ls = []")
    case True
    have "replace [CHR 0x22] [CHR 0x27] ((''<'' @ group_body) @ ''/>'')
        = (''<linkGrp toDoc='placeholder_toDoc.xml' fromDoc='placeholder_fromDoc.xml'' @ [CHR 0x27])
          @ ''/>''"
      unfolding replace_quote_append [of _ _ "''<'' @ group_body"] g by simp
    then show ?thesis
      unfolding st unfolding s canonical_xml_def using True by simp
  next
    case False
    have "replace [CHR 0x22] [CHR 0x27]
            ((''<'' @ group_body) @ ''>''
               @ concat (map (\<lambda>l. ''\<newline><'' @ link_body l @ ''/>'') ls) @ ''\<newline></linkGrp>'')
        = (''<linkGrp toDoc='placeholder_toDoc.xml' fromDoc='placeholder_fromDoc.xml'' @ [CHR 0x27])
          @ ''>'' @ concat (map (\<lambda>l. ''\<newline>'' @ canonical_link l) ls) @ ''\<newline></linkGrp>''"
      unfolding replace_quote_append [of _ _ "''<'' @ group_body"] g
        replace_quote_append [of _ _ "''>''"] replace_quote_append [of _ _ "concat _"] quote_links by simp
    then show ?thesis
      unfolding st unfolding s canonical_xml_def using False by simp
  qed
qed

lemma ordered_attributes_permuted:
  assumes "distinct (map fst atts)" "set atts = {(''type'', t), (''xtargets'', x), (''status'', s)}"
  shows "ordered_attributes atts = [(''type'', t), (''xtargets'', x), (''status'', s)]"
proof -
  have m: "map_of atts k = Some v \<longleftrightarrow> (k, v) \<in> set atts" for k v
    using assms(1) by (rule map_of_eq_Some_iff)
  have "map_of atts ''type'' = Some t" "map_of atts ''xtargets'' = Some x"
    "map_of atts ''status'' = Some s"
    unfolding m assms(2) by simp_all
  then show ?thesis unfolding ordered_attributes_def by simp
qed

lemma reads_links_rearranged:
  assumes "reads_links fromstring xml_string ls"
  shows "\<exists>root. fromstring xml_string = Inr root \<and> rearrange_root root = link_group ls"
proof -
  obtain kids where k: "fromstring xml_string
               = Inr (Element ''linkGrp''
                        [(''toDoc'', ''placeholder_toDoc.xml''), (''fromDoc'', ''placeholder_fromDoc.xml'')]
                        None kids None)"
    and a: "list_all2 (\<lambda>kid l. \<exists>atts. kid = Element ''link'' atts None [] None
                                  \<and> distinct (map fst atts)
                                  \<and> set atts = {(''type'', type l), (''xtargets'', xtargets l),
                                                 (''status'', status l)}) kids ls"
    using assms unfolding reads_links_def by blast
  have "map rearrange_element kids = map link_element ls"
    using a
  proof (induction kids ls rule: list_all2_induct)
    case Nil
    show ?case by simp
  next
    case (Cons kid kids l ls)
    then obtain atts where "kid = Element ''link'' atts None [] None" "distinct (map fst atts)"
      "set atts = {(''type'', type l), (''xtargets'', xtargets l), (''status'', status l)}"
      by blast
    then have "rearrange_element kid = link_element l"
      by (simp add: ordered_attributes_permuted link_element_def)
    then show ?case using Cons by simp
  qed
  then show ?thesis
    unfolding k rearrange_root_def link_group_def by simp
qed

lemma prettify_canonical:
  assumes "reads_links fromstring xml_string ls"
  shows "prettify_and_refine_xml fromstring xml_string = Inr (canonical_xml ls)"
proof -
  obtain root where r: "fromstring xml_string = Inr root" "rearrange_root root = link_group ls"
    using reads_links_rearranged [OF assms] by blast
  show ?thesis
    unfolding prettify_and_refine_xml_def rearrange_link_attributes_def
    using canonical_link_group [of ls] by (simp add: r del: tostring.simps)
qed

lemma reads_links_exact:
  "fromstring (tostring (link_group ls)) = Inr (link_group ls) \<Longrightarrow>
     reads_links fromstring (tostring (link_group ls)) ls"
  unfolding reads_links_def link_group_def
  by (auto simp: list_all2_map1 link_element_def intro!: list_all2_refl simp del: tostring.simps)

lemma generate_xml_canonical:
  assumes "reads_links fromstring (tostring (link_group (filter retained rs))) (filter retained rs)"
  shows "generate_xml fromstring pn rs st
       = Inr (st\<lparr>files := (files st)(output_path st pn \<mapsto> canonical_xml (filter retained rs))\<rparr>)"
  unfolding generate_xml_def using prettify_canonical [OF assms] by (simp del: tostring.simps)

lemma output_path_files [simp]: "output_path (st\<lparr>files := f\<rparr>) pn = output_path st pn"
  unfolding output_path_def by simp

lemma output_path_records [simp]:
  "output_path (st\<lparr>aligned_texts := a\<rparr>) pn = output_path st pn"
  "output_path (st\<lparr>failed_pairs := b\<rparr>) pn = output_path st pn"
  unfolding output_path_def by simp_all

subsection \<open>The filter of \<^verbatim>\<open>_generate_xml\<close>\<close>

lemma str_nat_0: "str_nat 0 = ''0''"
  by code_simp

lemma side_contains_entry:
  assumes "i \<in> set idxs"
  shows "\<exists>u v. join '' '' (map (\<lambda>idx. doc_id @ '':'' @ str_nat idx) idxs) = u @ (doc_id @ '':'' @ str_nat i) @ v"
proof -
  have "doc_id @ '':'' @ str_nat i \<in> set (map (\<lambda>idx. doc_id @ '':'' @ str_nat idx) idxs)"
    using assms by auto
  then show ?thesis by (rule join_member)
qed

lemma retained_xtargets_left:
  assumes "\<exists>u v. join '' '' (map (\<lambda>idx. src_id @ '':'' @ str_nat idx) l) = u @ p @ v"
  shows "contains (xtargets (make_link src_id tgt_id (l, r))) p"
proof -
  obtain u v where "join '' '' (map (\<lambda>idx. src_id @ '':'' @ str_nat idx) l) = u @ p @ v"
    using assms by blast
  then have "xtargets (make_link src_id tgt_id (l, r))
      = u @ p @ (v @ '';'' @ join '' '' (map (\<lambda>idx. tgt_id @ '':'' @ str_nat idx) r))"
    unfolding make_link_def by (simp add: Let_def)
  then show ?thesis unfolding contains_iff by blast
qed

lemma retained_xtargets_right:
  assumes "\<exists>u v. join '' '' (map (\<lambda>idx. tgt_id @ '':'' @ str_nat idx) r) = u @ p @ v"
  shows "contains (xtargets (make_link src_id tgt_id (l, r))) p"
proof -
  obtain u v where "join '' '' (map (\<lambda>idx. tgt_id @ '':'' @ str_nat idx) r) = u @ p @ v"
    using assms by blast
  then have "xtargets (make_link src_id tgt_id (l, r))
      = (join '' '' (map (\<lambda>idx. src_id @ '':'' @ str_nat idx) l) @ '';'' @ u) @ p @ v"
    unfolding make_link_def by (simp add: Let_def)
  then show ?thesis unfolding contains_iff by blast
qed

lemma side_641:
  assumes "idxs \<noteq> []"
  shows "\<exists>u v. join '' '' (map (\<lambda>idx. ''641'' @ '':'' @ str_nat idx) idxs) = u @ ''641:'' @ v"
proof -
  obtain i where "i \<in> set idxs" using assms by (cases idxs) auto
  then obtain u v where
    "join '' '' (map (\<lambda>idx. ''641'' @ '':'' @ str_nat idx) idxs) = u @ (''641'' @ '':'' @ str_nat i) @ v"
    using side_contains_entry by blast
  then have "join '' '' (map (\<lambda>idx. ''641'' @ '':'' @ str_nat idx) idxs) = u @ ''641:'' @ (str_nat i @ v)"
    by simp
  then show ?thesis by blast
qed

lemma side_643:
  assumes "0 \<in> set idxs"
  shows "\<exists>u v. join '' '' (map (\<lambda>idx. ''643'' @ '':'' @ str_nat idx) idxs) = u @ ''643:0'' @ v"
proof -
  obtain u v where
    "join '' '' (map (\<lambda>idx. ''643'' @ '':'' @ str_nat idx) idxs) = u @ (''643'' @ '':'' @ str_nat 0) @ v"
    using side_contains_entry [OF assms] by blast
  then have "join '' '' (map (\<lambda>idx. ''643'' @ '':'' @ str_nat idx) idxs) = u @ ''643:0'' @ v"
    by (simp add: str_nat_0)
  then show ?thesis by blast
qed

lemma spec_retain_retained:
  assumes "spec_retain src_id tgt_id al"
  shows "retained (make_link src_id tgt_id al)"
proof -
  obtain l r where al: "al = (l, r)" by (cases al)
  consider "src_id = ''643''" "0 \<in> set l" | "tgt_id = ''643''" "0 \<in> set r"
    | "src_id = ''641''" "l \<noteq> []" | "tgt_id = ''641''" "r \<noteq> []"
    using assms unfolding spec_retain_def al by auto
  then show ?thesis
  proof cases
    case 1
    then show ?thesis
      unfolding retained_def al using retained_xtargets_left [OF side_643] by blast
  next
    case 2
    then show ?thesis
      unfolding retained_def al using retained_xtargets_right [OF side_643] by blast
  next
    case 3
    then show ?thesis
      unfolding retained_def al using retained_xtargets_left [OF side_641] by blast
  next
    case 4
    then show ?thesis
      unfolding retained_def al using retained_xtargets_right [OF side_641] by blast
  qed
qed

text \<open>
  C1, as the code has it. The filter keeps a link exactly when the string
  \<^verbatim>\<open>643:0\<close> or the string \<^verbatim>\<open>641:\<close> occurs somewhere in its xtargets. Every link
  that has sentence 0 of the document 643 or any sentence of the document 641 on one of
  its sides is kept (so are links of other documents whose xtargets hold one of the two
  strings). When the parser reads the group back, the file written for a list of links
  is the canonical text of the links the filter keeps, in their order: a link the
  filter drops is not in the file.
\<close>

theorem retention_filter:
  "(retained l \<longleftrightarrow> (\<exists>u v. xtargets l = u @ ''643:0'' @ v) \<or> (\<exists>u v. xtargets l = u @ ''641:'' @ v))
   \<and> (spec_retain src_id tgt_id al \<longrightarrow> retained (make_link src_id tgt_id al))
   \<and> (reads_links fromstring (tostring (link_group (filter retained rs))) (filter retained rs) \<longrightarrow>
        generate_xml fromstring pn rs st
          = Inr (st\<lparr>files := (files st)(output_path st pn \<mapsto> canonical_xml (filter retained rs))\<rparr>))"
  using spec_retain_retained generate_xml_canonical
  by (auto simp: retained_def contains_iff simp del: tostring.simps)

theorem retention_filter_witness:
  "retained (make_link ''641'' ''B'' ([2, 3], [2]))
   \<and> (\<exists>u v. xtargets (make_link ''641'' ''B'' ([2, 3], [2])) = u @ ''641:'' @ v)
   \<and> spec_retain ''641'' ''B'' ([2, 3], [2])
   \<and> (\<exists>st'. generate_xml et_fromstring ''p'' ex_links (init_pipeline [] ''out'') = Inr st'
          \<and> files st' ''out/p.xml''
              = Some (''<?xml version='1.0' encoding='utf-8'?>\<newline>''
                   @ ''<linkGrp toDoc='placeholder_toDoc.xml' fromDoc='placeholder_fromDoc.xml'>\<newline>''
                   @ ''<link type='1-1' xtargets='641:0;B:0' status='auto'/>\<newline>''
                   @ ''<link type='2-1' xtargets='641:2 641:3;B:2' status='auto'/>\<newline>''
                   @ ''</linkGrp>''))"
proof -
  let ?st = "init_pipeline [] ''out''"
  note t = retention_filter [of "make_link ''641'' ''B'' ([2, 3], [2])" "''641''" "''B''" "([2, 3], [2])"
      et_fromstring ex_links "''p''" ?st]
  have s: "spec_retain ''641'' ''B'' ([2, 3], [2])" by (simp add: spec_retain_def)
  then have r: "retained (make_link ''641'' ''B'' ([2, 3], [2]))" using t by blast
  then have x: "\<exists>u v. xtargets (make_link ''641'' ''B'' ([2, 3], [2])) = u @ ''641:'' @ v"
    using t side_641 [of "[2, 3]"] retained_xtargets_left contains_iff by blast
  have "et_fromstring (tostring (link_group (filter retained ex_links)))
      = Inr (link_group (filter retained ex_links))"
    by code_simp
  then have rl: "reads_links et_fromstring (tostring (link_group (filter retained ex_links)))
      (filter retained ex_links)"
    by (rule reads_links_exact)
  have p: "output_path ?st ''p'' = ''out/p.xml''" by code_simp
  have c: "canonical_xml (filter retained ex_links)
      = ''<?xml version='1.0' encoding='utf-8'?>\<newline>''
                   @ ''<linkGrp toDoc='placeholder_toDoc.xml' fromDoc='placeholder_fromDoc.xml'>\<newline>''
                   @ ''<link type='1-1' xtargets='641:0;B:0' status='auto'/>\<newline>''
                   @ ''<link type='2-1' xtargets='641:2 641:3;B:2' status='auto'/>\<newline>''
                   @ ''</linkGrp>''"
    by code_simp
  have g: "generate_xml et_fromstring ''p'' ex_links ?st
      = Inr (?st\<lparr>files := (files ?st)(output_path ?st ''p'' \<mapsto> canonical_xml (filter retained ex_links))\<rparr>)"
    using t rl by blast
  have "\<exists>st'. generate_xml et_fromstring ''p'' ex_links ?st = Inr st'
          \<and> files st' ''out/p.xml'' = Some (canonical_xml (filter retained ex_links))"
    unfolding g p by simp
  then show ?thesis using r x s unfolding c by blast
qed

text \<open>
  C1 as stated fails: the link of sentence 0 of the document 1643 with sentence 0 of the
  document 7 has neither the document 643 nor the document 641 on a side, and the filter
  keeps it: it is in the file.
\<close>

theorem retention_filter_counterexample:
  "retained (make_link ''1643'' ''7'' ([0], [0]))
   \<and> \<not> spec_retain ''1643'' ''7'' ([0], [0])
   \<and> (case generate_xml et_fromstring ''p'' [make_link ''1643'' ''7'' ([0], [0])]
              (init_pipeline [] ''out'') of
         Inl e \<Rightarrow> False
       | Inr st' \<Rightarrow>
           files st' ''out/p.xml''
             = Some (''<?xml version='1.0' encoding='utf-8'?>\<newline>''
                   @ ''<linkGrp toDoc='placeholder_toDoc.xml' fromDoc='placeholder_fromDoc.xml'>\<newline>''
                   @ ''<link type='1-1' xtargets='1643:0;7:0' status='auto'/>\<newline>''
                   @ ''</linkGrp>''))"
  by code_simp

subsection \<open>Serialization\<close>

text \<open>
  C6. \<^verbatim>\<open>_generate_xml\<close> is deterministic and idempotent. When a call succeeds, the same
  call on the state it returned returns that state again, and the same call on any other
  state writes the same content. When the parser reads the group back, the call succeeds
  and the content is the canonical text of the links kept by the filter, one line per
  link in the order of the list.
\<close>

theorem serialization_idempotent:
  "(generate_xml fromstring pn rs st = Inr st1 \<longrightarrow>
      generate_xml fromstring pn rs st1 = Inr st1
      \<and> (\<exists>content. files st1 (output_path st pn) = Some content
            \<and> (\<forall>st2. \<exists>st3. generate_xml fromstring pn rs st2 = Inr st3
                    \<and> files st3 (output_path st2 pn) = Some content)))
   \<and> (reads_links fromstring (tostring (link_group (filter retained rs))) (filter retained rs) \<longrightarrow>
        generate_xml fromstring pn rs st
          = Inr (st\<lparr>files := (files st)(output_path st pn \<mapsto> canonical_xml (filter retained rs))\<rparr>))"
proof (intro conjI impI)
  assume a: "generate_xml fromstring pn rs st = Inr st1"
  then obtain c where c: "prettify_and_refine_xml fromstring (tostring (link_group (filter retained rs))) = Inr c"
    and st1: "st1 = st\<lparr>files := (files st)(output_path st pn \<mapsto> c)\<rparr>"
    unfolding generate_xml_def by (auto split: sum.splits simp del: tostring.simps)
  show "generate_xml fromstring pn rs st1 = Inr st1"
    unfolding generate_xml_def c st1 by simp
  have "files st1 (output_path st pn) = Some c" unfolding st1 by simp
  moreover have "\<exists>st3. generate_xml fromstring pn rs st2 = Inr st3
                    \<and> files st3 (output_path st2 pn) = Some c" for st2
    unfolding generate_xml_def c by simp
  ultimately show "\<exists>content. files st1 (output_path st pn) = Some content
            \<and> (\<forall>st2. \<exists>st3. generate_xml fromstring pn rs st2 = Inr st3
                    \<and> files st3 (output_path st2 pn) = Some content)"
    by blast
next
  assume "reads_links fromstring (tostring (link_group (filter retained rs))) (filter retained rs)"
  then show "generate_xml fromstring pn rs st
          = Inr (st\<lparr>files := (files st)(output_path st pn \<mapsto> canonical_xml (filter retained rs))\<rparr>)"
    by (rule generate_xml_canonical)
qed

theorem serialization_idempotent_witness:
  "\<exists>st1. generate_xml et_fromstring ''p'' ex_links (init_pipeline [] ''out'') = Inr st1
        \<and> generate_xml et_fromstring ''p'' ex_links st1 = Inr st1
        \<and> files st1 ''out/p.xml''
            = Some (''<?xml version='1.0' encoding='utf-8'?>\<newline>''
                   @ ''<linkGrp toDoc='placeholder_toDoc.xml' fromDoc='placeholder_fromDoc.xml'>\<newline>''
                   @ ''<link type='1-1' xtargets='641:0;B:0' status='auto'/>\<newline>''
                   @ ''<link type='2-1' xtargets='641:2 641:3;B:2' status='auto'/>\<newline>''
                   @ ''</linkGrp>'')"
proof -
  let ?st = "init_pipeline [] ''out''"
  let ?st1 = "?st\<lparr>files := (files ?st)(output_path ?st ''p'' \<mapsto> canonical_xml (filter retained ex_links))\<rparr>"
  have "et_fromstring (tostring (link_group (filter retained ex_links)))
      = Inr (link_group (filter retained ex_links))"
    by code_simp
  then have rl: "reads_links et_fromstring (tostring (link_group (filter retained ex_links)))
      (filter retained ex_links)"
    by (rule reads_links_exact)
  have g: "generate_xml et_fromstring ''p'' ex_links ?st = Inr ?st1"
    using serialization_idempotent [of et_fromstring "''p''" ex_links ?st ?st1] rl by blast
  then have i: "generate_xml et_fromstring ''p'' ex_links ?st1 = Inr ?st1"
    using serialization_idempotent [of et_fromstring "''p''" ex_links ?st ?st1] by blast
  have p: "output_path ?st ''p'' = ''out/p.xml''" by code_simp
  have c: "canonical_xml (filter retained ex_links)
      = ''<?xml version='1.0' encoding='utf-8'?>\<newline>''
                   @ ''<linkGrp toDoc='placeholder_toDoc.xml' fromDoc='placeholder_fromDoc.xml'>\<newline>''
                   @ ''<link type='1-1' xtargets='641:0;B:0' status='auto'/>\<newline>''
                   @ ''<link type='2-1' xtargets='641:2 641:3;B:2' status='auto'/>\<newline>''
                   @ ''</linkGrp>''"
    by code_simp
  have f: "files ?st1 ''out/p.xml'' = Some (canonical_xml (filter retained ex_links))"
    unfolding p by simp
  show ?thesis
    using g i f unfolding c by blast
qed

subsection \<open>Shape of the output\<close>

lemma make_link_status: "status (make_link src_id tgt_id al) = ''auto''"
  unfolding make_link_def by (cases al) (simp add: Let_def)

lemma align_sents_status:
  assumes "align_sents aligner td src_id tgt_id lang1 lang2 = Inr (Some links)"
  shows "\<forall>l \<in> set links. status l = ''auto''"
proof -
  have "\<exists>als. links = map (make_link src_id tgt_id) als"
    using assms unfolding align_sents_def by (auto split: sum.splits if_splits)
  then show ?thesis by (auto simp: make_link_status)
qed

lemma escape_attrib_auto: "escape_attrib ''auto'' = ''auto''"
  unfolding escape_attrib_def by (simp add: replace_single_absent)

lemma canonical_link_auto:
  "status l = ''auto'' \<Longrightarrow>
     canonical_link l
       = ''<link type='' @ [CHR 0x27] @ escape_attrib (type l) @ [CHR 0x27]
         @ '' xtargets='' @ [CHR 0x27] @ escape_attrib (xtargets l) @ [CHR 0x27]
         @ '' status='auto'/>''"
  unfolding canonical_link_def by (simp add: escape_attrib_auto)

lemma startswith_lt: "startswith s ''<'' \<longleftrightarrow> s \<noteq> [] \<and> hd s = CHR ''<''"
  by (cases s) auto

lemma isspace_chars [simp]:
  "\<not> isspace CHR ''<''" "\<not> isspace CHR ''>''" "isspace CHR ''\<newline>''"
  "\<not> isspace CHR 0x22" "\<not> isspace CHR 0x27"
  by (simp_all add: isspace_def)

lemma re_sub_tags_first:
  "startswith (dropWhile isspace (re_sub_tags s)) ''<'' \<longleftrightarrow> startswith (dropWhile isspace s) ''<''"
proof (induction s rule: re_sub_tags.induct)
  case 1
  show ?case by simp
next
  case (2 c cs)
  show ?case
  proof (cases "isspace c")
    case True
    then have "c \<noteq> CHR ''>''" by auto
    then show ?thesis using True 2 by simp
  next
    case False
    then show ?thesis by (auto simp: startswith_lt)
  qed
qed

lemma tags_separated_re_sub_tags: "tags_separated (re_sub_tags s)"
proof (induction s rule: re_sub_tags.induct)
  case 1
  show ?case by simp
next
  case (2 c cs)
  show ?case
  proof (cases "c = CHR ''>'' \<and> startswith (dropWhile isspace cs) ''<''")
    case True
    then show ?thesis using 2 by simp
  next
    case False
    then have "\<not> (c = CHR ''>'' \<and> startswith (dropWhile isspace (re_sub_tags cs)) ''<'')"
      unfolding re_sub_tags_first by simp
    then show ?thesis using False 2 by auto
  qed
qed

lemma tags_separated_suffix: "tags_separated (xs @ ys) \<Longrightarrow> tags_separated ys"
  by (induction xs) auto

lemma tags_separated_dropWhile: "tags_separated s \<Longrightarrow> tags_separated (dropWhile P s)"
  using tags_separated_suffix [of "takeWhile P s" "dropWhile P s"] by simp

lemma dropWhile_space_append:
  "startswith (dropWhile isspace cs) ''<'' \<Longrightarrow>
     startswith (dropWhile isspace (cs @ ys)) ''<'' \<and> takeWhile isspace (cs @ ys) = takeWhile isspace cs"
  by (induction cs) auto

lemma tags_separated_prefix: "tags_separated (xs @ ys) \<Longrightarrow> tags_separated xs"
proof (induction xs)
  case Nil
  show ?case by simp
next
  case (Cons c cs)
  then have t: "tags_separated cs" by simp
  have "takeWhile isspace cs = ''\<newline>''"
    if "c = CHR ''>''" "startswith (dropWhile isspace cs) ''<''"
    using Cons.prems that dropWhile_space_append [OF that(2), of ys] by simp
  then show ?case using t by simp
qed

lemma tags_separated_strip: "tags_separated s \<Longrightarrow> tags_separated (strip s)"
proof -
  assume a: "tags_separated s"
  let ?d = "dropWhile isspace s"
  have d: "tags_separated ?d" using a by (rule tags_separated_dropWhile)
  have "?d = rev (dropWhile isspace (rev ?d)) @ rev (takeWhile isspace (rev ?d))"
    by (metis rev_append rev_rev_ident takeWhile_dropWhile_id)
  then have "tags_separated (rev (dropWhile isspace (rev ?d)) @ rev (takeWhile isspace (rev ?d)))"
    using d by simp
  then show ?thesis unfolding strip_def by (rule tags_separated_prefix)
qed

lemma quote_map_space:
  "dropWhile isspace (map (\<lambda>c. if c = CHR 0x22 then CHR 0x27 else c) s)
     = map (\<lambda>c. if c = CHR 0x22 then CHR 0x27 else c) (dropWhile isspace s)"
  "takeWhile isspace (map (\<lambda>c. if c = CHR 0x22 then CHR 0x27 else c) s) = takeWhile isspace s"
  by (induction s) auto

lemma tags_separated_quote_map:
  "tags_separated s \<Longrightarrow> tags_separated (map (\<lambda>c. if c = CHR 0x22 then CHR 0x27 else c) s)"
proof (induction s)
  case Nil
  show ?case by simp
next
  case (Cons c cs)
  have "startswith (map (\<lambda>c. if c = CHR 0x22 then CHR 0x27 else c) xs) ''<''
      \<longleftrightarrow> startswith xs ''<''" for xs
    by (cases xs) auto
  then show ?case using Cons by (simp add: quote_map_space)
qed

lemma strip_no_leading_space: "takeWhile isspace (strip s) = []"
proof (cases "strip s")
  case Nil
  then show ?thesis by simp
next
  case (Cons c cs)
  have "strip s = rev (dropWhile isspace (rev (dropWhile isspace s)))" by (simp add: strip_def)
  then have "set (strip s) \<subseteq> set (dropWhile isspace s)"
    by (metis set_dropWhileD set_rev subsetI)
  have "dropWhile isspace s \<noteq> []"
  proof
    assume "dropWhile isspace s = []"
    then have "strip s = []" unfolding strip_def by (simp only: rev.simps dropWhile.simps)
    then show False using Cons by simp
  qed
  then have h: "\<not> isspace (hd (dropWhile isspace s))" by (rule hd_dropWhile)
  have "\<exists>zs. dropWhile isspace s = strip s @ zs"
    unfolding strip_def
    by (metis rev_append rev_rev_ident takeWhile_dropWhile_id)
  then have "hd (strip s) = hd (dropWhile isspace s)" using Cons by auto
  then show ?thesis using h Cons by simp
qed

lemma tags_separated_prettify:
  assumes "prettify_and_refine_xml fromstring xml_string = Inr out"
  shows "tags_separated out"
proof -
  obtain s where out: "out = xml_declaration @ ''\<newline>'' @ replace [CHR 0x22] [CHR 0x27] (strip (re_sub_tags s))"
    using assms unfolding prettify_and_refine_xml_def by (auto split: sum.splits)
  let ?q = "\<lambda>c. if c = CHR 0x22 then CHR 0x27 else c"
  let ?b = "map ?q (strip (re_sub_tags s))"
  have m: "replace [CHR 0x22] [CHR 0x27] t = map ?q t" for t
    by (induction t) auto
  have b: "tags_separated ?b"
    by (intro tags_separated_quote_map tags_separated_strip tags_separated_re_sub_tags)
  have t: "takeWhile isspace ?b = []"
    using strip_no_leading_space [of "re_sub_tags s"] by (simp add: quote_map_space)
  have "tags_separated (xml_declaration @ ''\<newline>'' @ ?b)"
    unfolding xml_declaration_def using b t by (simp add: isspace_def)
  then show ?thesis unfolding out m .
qed

text \<open>
  C7. Every output of \<^verbatim>\<open>_prettify_and_refine_xml\<close>, for every input string and every
  parser, begins with the declaration and a newline, and wherever only white space stands
  between a \<^verbatim>\<open>>\<close> and the next \<^verbatim>\<open><\<close> in it, that white space is one newline. Every link that \<^verbatim>\<open>_align_sents\<close> returns has the status auto. A link
  element whose attributes are type, xtargets and status in any order leaves
  \<^verbatim>\<open>_rearrange_link_attributes\<close> with the order type, xtargets, status. When the parser
  returns the group with its links, the attributes of each link in any order, and the
  links have the status auto, the output is the declaration, the group's start tag and one
  line per link with the attributes type, xtargets, status in this order, all values in
  single quotes and exactly one newline between two tags.
\<close>

theorem canonical_output:
  "(prettify_and_refine_xml fromstring xml_string = Inr out \<longrightarrow>
      startswith out (xml_declaration @ ''\<newline>'') \<and> tags_separated out)
   \<and> (align_sents aligner td src_id tgt_id lang1 lang2 = Inr (Some links) \<longrightarrow>
        (\<forall>l \<in> set links. status l = ''auto''))
   \<and> (distinct (map fst atts) \<and> set atts = {(''type'', t), (''xtargets'', x), (''status'', s)} \<longrightarrow>
        rearrange_element (Element ''link'' atts None [] None)
          = Element ''link'' [(''type'', t), (''xtargets'', x), (''status'', s)] None [] None)
   \<and> (reads_links fromstring xml_string ls \<and> (\<forall>l \<in> set ls. status l = ''auto'') \<longrightarrow>
        prettify_and_refine_xml fromstring xml_string
          = Inr (''<?xml version='1.0' encoding='utf-8'?>\<newline>''
                 @ ''<linkGrp toDoc='placeholder_toDoc.xml' fromDoc='placeholder_fromDoc.xml'' @ [CHR 0x27]
                 @ (if ls = [] then ''/>''
                    else ''>''
                      @ concat (map (\<lambda>l. ''\<newline><link type='' @ [CHR 0x27] @ escape_attrib (type l)
                                         @ [CHR 0x27] @ '' xtargets='' @ [CHR 0x27]
                                         @ escape_attrib (xtargets l) @ [CHR 0x27]
                                         @ '' status='auto'/>'') ls)
                      @ ''\<newline></linkGrp>'')))"
proof (intro conjI impI)
  assume "prettify_and_refine_xml fromstring xml_string = Inr out"
  then have "\<exists>r. out = (xml_declaration @ ''\<newline>'') @ r"
    unfolding prettify_and_refine_xml_def by (auto split: sum.splits)
  then show "startswith out (xml_declaration @ ''\<newline>'')"
    unfolding startswith_iff .
next
  assume "prettify_and_refine_xml fromstring xml_string = Inr out"
  then show "tags_separated out" by (rule tags_separated_prettify)
next
  assume "align_sents aligner td src_id tgt_id lang1 lang2 = Inr (Some links)"
  then show "\<forall>l \<in> set links. status l = ''auto''" by (rule align_sents_status)
next
  assume "distinct (map fst atts) \<and> set atts = {(''type'', t), (''xtargets'', x), (''status'', s)}"
  then show "rearrange_element (Element ''link'' atts None [] None)
          = Element ''link'' [(''type'', t), (''xtargets'', x), (''status'', s)] None [] None"
    by (simp add: ordered_attributes_permuted)
next
  assume a: "reads_links fromstring xml_string ls \<and> (\<forall>l \<in> set ls. status l = ''auto'')"
  have m: "map (\<lambda>l. ''\<newline>'' @ canonical_link l) ls
         = map (\<lambda>l. ''\<newline><link type='' @ [CHR 0x27] @ escape_attrib (type l)
                                         @ [CHR 0x27] @ '' xtargets='' @ [CHR 0x27]
                                         @ escape_attrib (xtargets l) @ [CHR 0x27]
                                         @ '' status='auto'/>'') ls"
    using a by (intro map_cong) (auto simp: canonical_link_auto)
  have "prettify_and_refine_xml fromstring xml_string = Inr (canonical_xml ls)"
    using a by (intro prettify_canonical) blast
  then show "prettify_and_refine_xml fromstring xml_string
          = Inr (''<?xml version='1.0' encoding='utf-8'?>\<newline>''
                 @ ''<linkGrp toDoc='placeholder_toDoc.xml' fromDoc='placeholder_fromDoc.xml'' @ [CHR 0x27]
                 @ (if ls = [] then ''/>''
                    else ''>''
                      @ concat (map (\<lambda>l. ''\<newline><link type='' @ [CHR 0x27] @ escape_attrib (type l)
                                         @ [CHR 0x27] @ '' xtargets='' @ [CHR 0x27]
                                         @ escape_attrib (xtargets l) @ [CHR 0x27]
                                         @ '' status='auto'/>'') ls)
                      @ ''\<newline></linkGrp>''))"
    unfolding canonical_xml_def m xml_declaration_def by simp
qed

theorem canonical_output_witness:
  "prettify_and_refine_xml et_fromstring ex_reordered
     = Inr (''<?xml version='1.0' encoding='utf-8'?>\<newline>''
            @ ''<linkGrp toDoc='placeholder_toDoc.xml' fromDoc='placeholder_fromDoc.xml'>\<newline>''
            @ ''<link type='1-1' xtargets='641:0;B:0' status='auto'/>\<newline>''
            @ ''</linkGrp>'')
   \<and> startswith (''<?xml version='1.0' encoding='utf-8'?>\<newline>''
            @ ''<linkGrp toDoc='placeholder_toDoc.xml' fromDoc='placeholder_fromDoc.xml'>\<newline>''
            @ ''<link type='1-1' xtargets='641:0;B:0' status='auto'/>\<newline>''
            @ ''</linkGrp>'') (xml_declaration @ ''\<newline>'')
   \<and> rearrange_element
         (Element ''link'' [(''status'', ''auto''), (''xtargets'', ''641:0;B:0''), (''type'', ''1-1'')]
            None [] None)
       = Element ''link'' [(''type'', ''1-1''), (''xtargets'', ''641:0;B:0''), (''status'', ''auto'')]
           None [] None"
proof -
  let ?l = "\<lparr>xtargets = ''641:0;B:0'', type = ''1-1'', status = ''auto''\<rparr>"
  let ?atts = "[(''status'', ''auto''), (''xtargets'', ''641:0;B:0''), (''type'', ''1-1'')]"
  have p: "et_fromstring ex_reordered
         = Inr (Element ''linkGrp''
                  [(''toDoc'', ''placeholder_toDoc.xml''), (''fromDoc'', ''placeholder_fromDoc.xml'')]
                  None [Element ''link'' ?atts None [] None] None)"
    by code_simp
  have d: "distinct (map fst ?atts) \<and> set ?atts = {(''type'', ''1-1''), (''xtargets'', ''641:0;B:0''), (''status'', ''auto'')}"
    by auto
  have r: "reads_links et_fromstring ex_reordered [?l] \<and> (\<forall>l \<in> set [?l]. status l = ''auto'')"
    unfolding reads_links_def p using d by auto
  have e: "escape_attrib ''1-1'' = ''1-1''" "escape_attrib ''641:0;B:0'' = ''641:0;B:0''"
    by code_simp+
  note c = canonical_output [of et_fromstring ex_reordered _ ex_aligner "[]" "''''" "''''" "''''" "''''" "[]"
      ?atts "''1-1''" "''641:0;B:0''" "''auto''" "[?l]"]
  have 1: "prettify_and_refine_xml et_fromstring ex_reordered
     = Inr (''<?xml version='1.0' encoding='utf-8'?>\<newline>''
            @ ''<linkGrp toDoc='placeholder_toDoc.xml' fromDoc='placeholder_fromDoc.xml'>\<newline>''
            @ ''<link type='1-1' xtargets='641:0;B:0' status='auto'/>\<newline>''
            @ ''</linkGrp>'')"
    using c r by (simp add: e)
  have 2: "startswith (''<?xml version='1.0' encoding='utf-8'?>\<newline>''
            @ ''<linkGrp toDoc='placeholder_toDoc.xml' fromDoc='placeholder_fromDoc.xml'>\<newline>''
            @ ''<link type='1-1' xtargets='641:0;B:0' status='auto'/>\<newline>''
            @ ''</linkGrp>'') (xml_declaration @ ''\<newline>'')"
    using c 1 by blast
  have 3: "rearrange_element (Element ''link'' ?atts None [] None)
       = Element ''link'' [(''type'', ''1-1''), (''xtargets'', ''641:0;B:0''), (''status'', ''auto'')]
           None [] None"
    using c d by blast
  show ?thesis using 1 2 3 by blast
qed

text \<open>
  C10. Every output of \<^verbatim>\<open>_prettify_and_refine_xml\<close>, for every input string and every
  parser, has no double quote: it is the declaration followed by the rearranged and
  stripped text in which every double quote, wherever it stands, has become a single
  quote.
\<close>

theorem no_double_quote:
  assumes "prettify_and_refine_xml fromstring xml_string = Inr out"
  shows "CHR 0x22 \<notin> set out
       \<and> (\<exists>s. rearrange_link_attributes fromstring xml_string = Inr s
              \<and> out = xml_declaration @ ''\<newline>''
                    @ map (\<lambda>c. if c = CHR 0x22 then CHR 0x27 else c) (strip (re_sub_tags s)))"
proof -
  obtain s where s: "rearrange_link_attributes fromstring xml_string = Inr s"
    and out: "out = xml_declaration @ ''\<newline>'' @ replace [CHR 0x22] [CHR 0x27] (strip (re_sub_tags s))"
    using assms unfolding prettify_and_refine_xml_def by (auto split: sum.splits)
  have m: "replace [CHR 0x22] [CHR 0x27] t = map (\<lambda>c. if c = CHR 0x22 then CHR 0x27 else c) t" for t
    by (induction t) auto
  have "CHR 0x22 \<notin> set (xml_declaration @ ''\<newline>'')" unfolding xml_declaration_def by simp
  moreover have "CHR 0x22 \<notin> set (map (\<lambda>c. if c = CHR 0x22 then CHR 0x27 else c) t)" for t
    by auto
  ultimately have "CHR 0x22 \<notin> set out" unfolding out m by simp
  then show ?thesis using s out m by simp
qed

theorem no_double_quote_witness:
  "prettify_and_refine_xml et_fromstring (tostring (link_group ex_quoted))
     = Inr (''<?xml version='1.0' encoding='utf-8'?>\<newline>''
            @ ''<linkGrp toDoc='placeholder_toDoc.xml' fromDoc='placeholder_fromDoc.xml'>\<newline>''
            @ ''<link type='1-1' xtargets='641:0;a&quot;b:0' status='auto'/>\<newline>''
            @ ''</linkGrp>'')
   \<and> CHR 0x22 \<notin> set (''<?xml version='1.0' encoding='utf-8'?>\<newline>''
            @ ''<linkGrp toDoc='placeholder_toDoc.xml' fromDoc='placeholder_fromDoc.xml'>\<newline>''
            @ ''<link type='1-1' xtargets='641:0;a&quot;b:0' status='auto'/>\<newline>''
            @ ''</linkGrp>'')"
proof -
  have h: "prettify_and_refine_xml et_fromstring (tostring (link_group ex_quoted))
     = Inr (''<?xml version='1.0' encoding='utf-8'?>\<newline>''
            @ ''<linkGrp toDoc='placeholder_toDoc.xml' fromDoc='placeholder_fromDoc.xml'>\<newline>''
            @ ''<link type='1-1' xtargets='641:0;a&quot;b:0' status='auto'/>\<newline>''
            @ ''</linkGrp>'')"
    by code_simp
  show ?thesis using no_double_quote [OF h] h by blast
qed

subsection \<open>When a file is written\<close>

lemma align_group_pair_result:
  assumes "set group1 \<subseteq> set (texts_data st)" "set group2 \<subseteq> set (texts_data st)"
  shows "align_group_pair fromstring aligner ((k1, group1), (k2, group2)) st
       = (let st' = st\<lparr>aligned_texts := aligned_texts st
                       @ map (record_of (pair_name k1 k2))
                           (filter (succeeds aligner (texts_data st) (fst k1) (fst k2))
                              (attempts group1 group2)),
                     failed_pairs := failed_pairs st
                       @ map (record_of (pair_name k1 k2))
                           (filter (\<lambda>p. \<not> succeeds aligner (texts_data st) (fst k1) (fst k2) p)
                              (attempts group1 group2))\<rparr>
          in if accumulated aligner (texts_data st) (fst k1) (fst k2) group1 group2 \<noteq> []
             then generate_xml fromstring (pair_name k1 k2)
                    (accumulated aligner (texts_data st) (fst k1) (fst k2) group1 group2) st'
             else Inr st')"
  unfolding align_group_pair_def accumulated_def
  by (simp add: align_groups_result [OF assms] Let_def)

lemma set_save_alignment_file:
  "set (save_alignment_file st)
     = {(s, t, c). \<exists>pn. (s, t, pn) \<in> set (aligned_texts st) \<and> files st (output_path st pn) = Some c}"
  unfolding save_alignment_file_def by (auto split: option.splits)

text \<open>
  C8, as the code has it. For a pair of groups of rows of the table, the test before
  \<^verbatim>\<open>_generate_xml\<close> is on the list of links before the filter. When that list is empty
  no file is written. When it is not empty (and the parser reads the group back) the file
  of the pair is written with the links the filter keeps; with no link kept, the file
  holds the empty group. \<^verbatim>\<open>save_alignment_file\<close> gives one row for each record of
  \<^verbatim>\<open>aligned_texts\<close> whose file exists and none for the others.
\<close>

theorem file_written_iff_links:
  assumes "set group1 \<subseteq> set (texts_data st)" "set group2 \<subseteq> set (texts_data st)"
  shows "(accumulated aligner (texts_data st) (fst k1) (fst k2) group1 group2 = [] \<longrightarrow>
           (\<exists>st'. align_group_pair fromstring aligner ((k1, group1), (k2, group2)) st = Inr st'
                 \<and> files st' = files st))
       \<and> (accumulated aligner (texts_data st) (fst k1) (fst k2) group1 group2 \<noteq> []
          \<and> reads_links fromstring
               (tostring (link_group (filter retained
                  (accumulated aligner (texts_data st) (fst k1) (fst k2) group1 group2))))
               (filter retained (accumulated aligner (texts_data st) (fst k1) (fst k2) group1 group2)) \<longrightarrow>
           (\<exists>st'. align_group_pair fromstring aligner ((k1, group1), (k2, group2)) st = Inr st'
                 \<and> files st'
                     = (files st)(output_path st (pair_name k1 k2) \<mapsto>
                         canonical_xml (filter retained
                           (accumulated aligner (texts_data st) (fst k1) (fst k2) group1 group2)))))
       \<and> canonical_xml []
           = ''<?xml version='1.0' encoding='utf-8'?>\<newline>''
             @ ''<linkGrp toDoc='placeholder_toDoc.xml' fromDoc='placeholder_fromDoc.xml'/>''
       \<and> set (save_alignment_file st0)
           = {(s, t, c). \<exists>pn. (s, t, pn) \<in> set (aligned_texts st0)
                              \<and> files st0 (output_path st0 pn) = Some c}"
proof (intro conjI impI)
  assume "accumulated aligner (texts_data st) (fst k1) (fst k2) group1 group2 = []"
  then show "\<exists>st'. align_group_pair fromstring aligner ((k1, group1), (k2, group2)) st = Inr st'
                 \<and> files st' = files st"
    by (simp add: align_group_pair_result [OF assms] Let_def)
next
  let ?acc = "accumulated aligner (texts_data st) (fst k1) (fst k2) group1 group2"
  assume a: "?acc \<noteq> [] \<and> reads_links fromstring (tostring (link_group (filter retained ?acc)))
               (filter retained ?acc)"
  then have r: "reads_links fromstring (tostring (link_group (filter retained ?acc)))
               (filter retained ?acc)" by blast
  show "\<exists>st'. align_group_pair fromstring aligner ((k1, group1), (k2, group2)) st = Inr st'
                 \<and> files st' = (files st)(output_path st (pair_name k1 k2) \<mapsto>
                         canonical_xml (filter retained ?acc))"
    using a by (simp add: align_group_pair_result [OF assms] Let_def generate_xml_canonical [OF r]
        del: tostring.simps)
next
  show "canonical_xml []
           = ''<?xml version='1.0' encoding='utf-8'?>\<newline>''
             @ ''<linkGrp toDoc='placeholder_toDoc.xml' fromDoc='placeholder_fromDoc.xml'/>''"
    unfolding canonical_xml_def xml_declaration_def by simp
next
  show "set (save_alignment_file st0)
           = {(s, t, c). \<exists>pn. (s, t, pn) \<in> set (aligned_texts st0)
                              \<and> files st0 (output_path st0 pn) = Some c}"
    by (rule set_save_alignment_file)
qed

theorem file_written_iff_links_witness:
  "(\<exists>st'. align_group_pair et_fromstring ex_aligner
            (((''en'', ''source'', ''spoken''), [ex_event ! 2]),
             ((''en'', ''source'', ''written''), [ex_event ! 0]))
            (init_pipeline ex_event ''out'') = Inr st'
        \<and> files st' = files (init_pipeline ex_event ''out''))
   \<and> (\<exists>st'. align_group_pair et_fromstring ex_aligner
            (((''en'', ''source'', ''written''), [ex_event ! 0]),
             ((''es'', ''target'', ''written''), [ex_event ! 1, ex_event ! 3]))
            (init_pipeline ex_event ''out'') = Inr st'
        \<and> files st' ex_pair_path
            = Some (''<?xml version='1.0' encoding='utf-8'?>\<newline>''
                    @ ''<linkGrp toDoc='placeholder_toDoc.xml' fromDoc='placeholder_fromDoc.xml'/>''))"
proof -
  let ?st = "init_pipeline ex_event ''out''"
  let ?k0 = "(''en'', ''source'', ''spoken'')"
  let ?k1 = "(''en'', ''source'', ''written'')"
  let ?k2 = "(''es'', ''target'', ''written'')"
  have sub: "set [ex_event ! 2] \<subseteq> set (texts_data ?st)" "set [ex_event ! 0] \<subseteq> set (texts_data ?st)"
    "set [ex_event ! 1, ex_event ! 3] \<subseteq> set (texts_data ?st)"
    by (simp_all add: init_pipeline_def ex_event_def)
  have e: "accumulated ex_aligner (texts_data ?st) (fst ?k0) (fst ?k1) [ex_event ! 2] [ex_event ! 0] = []"
    by code_simp
  have a: "\<exists>st'. align_group_pair et_fromstring ex_aligner ((?k0, [ex_event ! 2]), (?k1, [ex_event ! 0])) ?st = Inr st'
        \<and> files st' = files ?st"
    using file_written_iff_links [OF sub(1) sub(2), of ex_aligner ?k0 ?k1 et_fromstring ?st] e
    by blast
  let ?acc = "accumulated ex_aligner (texts_data ?st) (fst ?k1) (fst ?k2) [ex_event ! 0]
                [ex_event ! 1, ex_event ! 3]"
  have n: "?acc \<noteq> []" by code_simp
  have f: "filter retained ?acc = []" by code_simp
  have "et_fromstring (tostring (link_group [])) = Inr (link_group [])" by code_simp
  then have rl: "reads_links et_fromstring (tostring (link_group (filter retained ?acc))) (filter retained ?acc)"
    unfolding f by (rule reads_links_exact)
  have p: "output_path ?st (pair_name ?k1 ?k2) = ex_pair_path" by code_simp
  note t = file_written_iff_links [OF sub(2) sub(3), of ex_aligner ?k1 ?k2 et_fromstring ?st]
  have "\<exists>st'. align_group_pair et_fromstring ex_aligner ((?k1, [ex_event ! 0]), (?k2, [ex_event ! 1, ex_event ! 3])) ?st = Inr st'
        \<and> files st' = (files ?st)(output_path ?st (pair_name ?k1 ?k2) \<mapsto> canonical_xml (filter retained ?acc))"
    using t n rl by blast
  then have b: "\<exists>st'. align_group_pair et_fromstring ex_aligner ((?k1, [ex_event ! 0]), (?k2, [ex_event ! 1, ex_event ! 3])) ?st = Inr st'
        \<and> files st' ex_pair_path = Some (canonical_xml [])"
    unfolding p f by auto
  have c: "canonical_xml [] = ''<?xml version='1.0' encoding='utf-8'?>\<newline>''
                    @ ''<linkGrp toDoc='placeholder_toDoc.xml' fromDoc='placeholder_fromDoc.xml'/>''"
    using t by blast
  show ?thesis using a b unfolding c by blast
qed

text \<open>
  C8 as stated fails: for the documents A and B, D of the example the aligner gives
  links, the filter drops all of them, and the file of the pair exists and holds the empty
  group; the rows of the spreadsheet carry it.
\<close>

theorem file_written_iff_links_counterexample:
  "accumulated ex_aligner ex_event ''en'' ''es'' [ex_event ! 0] [ex_event ! 1, ex_event ! 3] \<noteq> []
   \<and> filter retained
        (accumulated ex_aligner ex_event ''en'' ''es'' [ex_event ! 0] [ex_event ! 1, ex_event ! 3]) = []
   \<and> (case align_group_pair et_fromstring ex_aligner
              (((''en'', ''source'', ''written''), [ex_event ! 0]),
               ((''es'', ''target'', ''written''), [ex_event ! 1, ex_event ! 3]))
              (init_pipeline ex_event ''out'') of
         Inl e \<Rightarrow> False
       | Inr st' \<Rightarrow>
           files st' ex_pair_path
             = Some (''<?xml version='1.0' encoding='utf-8'?>\<newline>''
                     @ ''<linkGrp toDoc='placeholder_toDoc.xml' fromDoc='placeholder_fromDoc.xml'/>''))
   \<and> (case run et_fromstring ex_aligner (init_pipeline ex_event ''out'') of
         Inl e \<Rightarrow> False
       | Inr (st', rows) \<Rightarrow>
           rows = [(''A'', ''B'', ''<?xml version='1.0' encoding='utf-8'?>\<newline>''
                     @ ''<linkGrp toDoc='placeholder_toDoc.xml' fromDoc='placeholder_fromDoc.xml'/>''),
                   (''A'', ''D'', ''<?xml version='1.0' encoding='utf-8'?>\<newline>''
                     @ ''<linkGrp toDoc='placeholder_toDoc.xml' fromDoc='placeholder_fromDoc.xml'/>'')])"
  by code_simp

subsection \<open>Two events with the same pair of groups\<close>

text \<open>
  C9 at two events whose groups have the same keys, and so the same pair name. After
  the first event alone the file of the pair holds the link of the documents 641 and 7,
  which the filter keeps. After both events the file holds the link of the second event
  only, while \<^verbatim>\<open>aligned_texts\<close> has the records of both: the second call of
  \<^verbatim>\<open>_generate_xml\<close> replaced what the first wrote.
\<close>

theorem overwrite_across_events:
  "(case align_texts et_fromstring ex_aligner (init_pipeline (take 2 ex_two_events) ''out'') of
      Inl e \<Rightarrow> False
    | Inr st' \<Rightarrow>
        aligned_texts st' = [(''641'', ''7'', ''EPTIC.en_written_source.es_written_target'')]
      \<and> files st' ex_pair_path
           = Some (''<?xml version='1.0' encoding='utf-8'?>\<newline>''
                   @ ''<linkGrp toDoc='placeholder_toDoc.xml' fromDoc='placeholder_fromDoc.xml'>\<newline>''
                   @ ''<link type='1-1' xtargets='641:0;7:0' status='auto'/>\<newline>''
                   @ ''</linkGrp>''))
   \<and> (case align_texts et_fromstring ex_aligner (init_pipeline ex_two_events ''out'') of
      Inl e \<Rightarrow> False
    | Inr st' \<Rightarrow>
        aligned_texts st'
          = [(''641'', ''7'', ''EPTIC.en_written_source.es_written_target''),
             (''8'', ''643'', ''EPTIC.en_written_source.es_written_target'')]
      \<and> files st' ex_pair_path
           = Some (''<?xml version='1.0' encoding='utf-8'?>\<newline>''
                   @ ''<linkGrp toDoc='placeholder_toDoc.xml' fromDoc='placeholder_fromDoc.xml'>\<newline>''
                   @ ''<link type='1-1' xtargets='8:0;643:0' status='auto'/>\<newline>''
                   @ ''</linkGrp>''))
   \<and> retained (make_link ''641'' ''7'' ([0], [0]))"
  by code_simp

end
